theory Spec2Isabelle
  imports Complex_Main
begin

section \<open>Numbers: the C++ type double\<close>

text \<open>
  A \<open>double\<close> is a finite number, one of the two infinities, or NaN. Finite values are
  the reals they denote: rounding, overflow to infinity and the sign of zero are not
  modelled. The special values follow IEEE 754 and Annex F of the C standard, which is
  what \<open>+ - * /\<close> and the \<open>cmath\<close> functions called by the evaluator implement.
\<close>

datatype double = Finite real | PosInf | NegInf | NaN

fun isnan :: "double \<Rightarrow> bool" where
  "isnan NaN = True"
| "isnan _ = False"

fun isinf :: "double \<Rightarrow> bool" where
  "isinf PosInf = True"
| "isinf NegInf = True"
| "isinf _ = False"

text \<open>The comparisons \<open>x == 0.0\<close>, \<open>x < 0.0\<close> and \<open>x <= 0.0\<close>: false on NaN.\<close>

fun eq_zero :: "double \<Rightarrow> bool" where
  "eq_zero (Finite x) = (x = 0)"
| "eq_zero _ = False"

fun lt_zero :: "double \<Rightarrow> bool" where
  "lt_zero (Finite x) = (x < 0)"
| "lt_zero NegInf = True"
| "lt_zero _ = False"

fun le_zero :: "double \<Rightarrow> bool" where
  "le_zero (Finite x) = (x \<le> 0)"
| "le_zero NegInf = True"
| "le_zero _ = False"

fun dneg :: "double \<Rightarrow> double" where
  "dneg (Finite x) = Finite (- x)"
| "dneg PosInf = NegInf"
| "dneg NegInf = PosInf"
| "dneg NaN = NaN"

fun dadd :: "double \<Rightarrow> double \<Rightarrow> double" where
  "dadd NaN _ = NaN"
| "dadd _ NaN = NaN"
| "dadd (Finite x) (Finite y) = Finite (x + y)"
| "dadd PosInf NegInf = NaN"
| "dadd NegInf PosInf = NaN"
| "dadd PosInf _ = PosInf"
| "dadd NegInf _ = NegInf"
| "dadd (Finite x) y = y"

definition dsub :: "double \<Rightarrow> double \<Rightarrow> double" where
  "dsub x y = dadd x (dneg y)"

text \<open>An infinity of the sign of \<open>s\<close>; \<open>0 * inf\<close> is NaN.\<close>

definition signed_inf :: "real \<Rightarrow> double" where
  "signed_inf s = (if s = 0 then NaN else if 0 < s then PosInf else NegInf)"

fun dmul :: "double \<Rightarrow> double \<Rightarrow> double" where
  "dmul NaN _ = NaN"
| "dmul _ NaN = NaN"
| "dmul (Finite x) (Finite y) = Finite (x * y)"
| "dmul (Finite x) PosInf = signed_inf x"
| "dmul (Finite x) NegInf = signed_inf (- x)"
| "dmul PosInf (Finite y) = signed_inf y"
| "dmul NegInf (Finite y) = signed_inf (- y)"
| "dmul PosInf PosInf = PosInf"
| "dmul NegInf NegInf = PosInf"
| "dmul PosInf NegInf = NegInf"
| "dmul NegInf PosInf = NegInf"

fun ddiv :: "double \<Rightarrow> double \<Rightarrow> double" where
  "ddiv NaN _ = NaN"
| "ddiv _ NaN = NaN"
| "ddiv (Finite x) (Finite y) = (if y = 0 then signed_inf x else Finite (x / y))"
| "ddiv (Finite x) _ = Finite 0"
| "ddiv PosInf (Finite y) = (if 0 \<le> y then PosInf else NegInf)"
| "ddiv NegInf (Finite y) = (if 0 \<le> y then NegInf else PosInf)"
| "ddiv _ _ = NaN"

definition is_integer :: "real \<Rightarrow> bool" where
  "is_integer y = (of_int \<lfloor>y\<rfloor> = y)"

definition is_odd_integer :: "real \<Rightarrow> bool" where
  "is_odd_integer y = (is_integer y \<and> odd \<lfloor>y\<rfloor>)"

text \<open>\<open>pow(x, y)\<close> for finite arguments.\<close>

definition pow_finite :: "real \<Rightarrow> real \<Rightarrow> double" where
  "pow_finite x y =
     (if y = 0 then Finite 1
      else if 0 < x then Finite (x powr y)
      else if x = 0 then (if 0 < y then Finite 0 else PosInf)
      else if is_integer y then
        Finite ((if is_odd_integer y then - 1 else 1) * (- x) powr y)
      else NaN)"

fun dpow :: "double \<Rightarrow> double \<Rightarrow> double" where
  "dpow (Finite x) (Finite y) = pow_finite x y"
| "dpow NaN (Finite y) = (if y = 0 then Finite 1 else NaN)"
| "dpow (Finite x) NaN = (if x = 1 then Finite 1 else NaN)"
| "dpow NaN _ = NaN"
| "dpow _ NaN = NaN"
| "dpow (Finite x) PosInf =
     (if \<bar>x\<bar> = 1 then Finite 1 else if \<bar>x\<bar> < 1 then Finite 0 else PosInf)"
| "dpow (Finite x) NegInf =
     (if \<bar>x\<bar> = 1 then Finite 1 else if \<bar>x\<bar> < 1 then PosInf else Finite 0)"
| "dpow PosInf (Finite y) =
     (if y = 0 then Finite 1 else if y < 0 then Finite 0 else PosInf)"
| "dpow NegInf (Finite y) =
     (if y = 0 then Finite 1 else if y < 0 then Finite 0
      else if is_odd_integer y then NegInf else PosInf)"
| "dpow _ PosInf = PosInf"
| "dpow _ NegInf = Finite 0"

fun dfabs :: "double \<Rightarrow> double" where
  "dfabs (Finite x) = Finite \<bar>x\<bar>"
| "dfabs NaN = NaN"
| "dfabs _ = PosInf"

fun dsqrt :: "double \<Rightarrow> double" where
  "dsqrt (Finite x) = (if x < 0 then NaN else Finite (sqrt x))"
| "dsqrt PosInf = PosInf"
| "dsqrt _ = NaN"

fun dlog :: "double \<Rightarrow> double" where
  "dlog (Finite x) = (if x < 0 then NaN else if x = 0 then NegInf else Finite (ln x))"
| "dlog PosInf = PosInf"
| "dlog _ = NaN"

fun dexp :: "double \<Rightarrow> double" where
  "dexp (Finite x) = Finite (exp x)"
| "dexp PosInf = PosInf"
| "dexp NegInf = Finite 0"
| "dexp NaN = NaN"

fun dsin :: "double \<Rightarrow> double" where
  "dsin (Finite x) = Finite (sin x)"
| "dsin _ = NaN"

fun dcos :: "double \<Rightarrow> double" where
  "dcos (Finite x) = Finite (cos x)"
| "dcos _ = NaN"

fun dtan :: "double \<Rightarrow> double" where
  "dtan (Finite x) = Finite (tan x)"
| "dtan _ = NaN"

section \<open>Strings: QString and QChar\<close>

text \<open>
  A \<open>QString\<close> is a \<open>string\<close> whose characters are code points below 256. The
  \<open>QChar\<close> classes are those of Unicode on that range: \<open>isDigit\<close> is category Nd,
  \<open>isLetter\<close> the letter categories, \<open>isLetterOrNumber\<close> adds the number
  categories, \<open>isSpace\<close> is the separators with the control characters 9 to 13 and
  0x85.
\<close>

definition isSpace :: "char \<Rightarrow> bool" where
  "isSpace c = (c = CHR '' '' \<or> (of_char c :: nat) \<in> {9, 10, 11, 12, 13, 133, 160})"

definition isDigit :: "char \<Rightarrow> bool" where
  "isDigit c = (c \<in> set ''0123456789'')"

definition isLetter :: "char \<Rightarrow> bool" where
  "isLetter c =
     (c \<in> set ''abcdefghijklmnopqrstuvwxyz'' \<or> c \<in> set ''ABCDEFGHIJKLMNOPQRSTUVWXYZ'' \<or>
      (let n = (of_char c :: nat) in
         n = 170 \<or> n = 181 \<or> n = 186 \<or> (192 \<le> n \<and> n \<le> 214) \<or>
         (216 \<le> n \<and> n \<le> 246) \<or> 248 \<le> n))"

definition isLetterOrNumber :: "char \<Rightarrow> bool" where
  "isLetterOrNumber c =
     (isLetter c \<or> isDigit c \<or>
      (let n = (of_char c :: nat) in n = 178 \<or> n = 179 \<or> n = 185 \<or> (188 \<le> n \<and> n \<le> 190)))"

definition trimmed :: "string \<Rightarrow> string" where
  "trimmed s = rev (dropWhile isSpace (rev (dropWhile isSpace s)))"

text \<open>
  \<open>QString::toDouble\<close> on a lexeme of digits and decimal points: the number when there
  is at most one point and at least one digit, and \<open>0.0\<close> (conversion failure) otherwise.
\<close>

definition digitValue :: "char \<Rightarrow> nat" where
  "digitValue c = of_char c - of_char CHR ''0''"

fun digitsValue :: "nat \<Rightarrow> string \<Rightarrow> nat" where
  "digitsValue acc [] = acc"
| "digitsValue acc (c # cs) = digitsValue (10 * acc + digitValue c) cs"

definition toDouble :: "string \<Rightarrow> double" where
  "toDouble s =
     (let whole = takeWhile isDigit s;
          rest = dropWhile isDigit s;
          frac = (case rest of [] \<Rightarrow> [] | c # cs \<Rightarrow> cs)
      in if (whole = [] \<and> frac = []) \<or> \<not> list_all isDigit frac then Finite 0
         else Finite (real (digitsValue 0 whole) + real (digitsValue 0 frac) / 10 ^ length frac))"

section \<open>The expression parser (math_expression_parser.cpp)\<close>

subsection \<open>Tokens\<close>

datatype TokenType =
  TOKEN_NUMBER | TOKEN_VARIABLE | TOKEN_OPERATOR | TOKEN_FUNCTION
| TOKEN_LEFT_PAREN | TOKEN_RIGHT_PAREN | TOKEN_COMMA | TOKEN_END

text \<open>The struct \<open>Token\<close>: \<open>type\<close>, \<open>value\<close> and \<open>numberValue\<close> (default \<open>0.0\<close>).\<close>

record Token =
  ttype :: TokenType
  tvalue :: string
  numberValue :: double

definition mkToken :: "TokenType \<Rightarrow> string \<Rightarrow> double \<Rightarrow> Token" where
  "mkToken t v n = \<lparr>ttype = t, tvalue = v, numberValue = n\<rparr>"

text \<open>
  The messages of the parser, one constructor for each message text:
  \<^item> \<open>EmptyExpression\<close>: "Empty expression"
  \<^item> \<open>InvalidCharacter i c\<close>: "Invalid character at position i: c"
  \<^item> \<open>UnexpectedTokenAt pos v\<close>: "Unexpected token at position pos: v"
  \<^item> \<open>UnexpectedEnd\<close>: "Unexpected end of expression"
  \<^item> \<open>ExpectedLeftParen\<close>: "Expected '(' after function name"
  \<^item> \<open>ExpectedRightParenAfterArgument\<close>: "Expected ')' after function argument"
  \<^item> \<open>ExpectedRightParen\<close>: "Expected ')'"
  \<^item> \<open>UnknownFunction f\<close>: "Unknown function: f"
  \<^item> \<open>UnexpectedToken v\<close>: "Unexpected token: v"
\<close>

datatype ParseError =
  EmptyExpression
| InvalidCharacter nat char
| UnexpectedTokenAt nat string
| UnexpectedEnd
| ExpectedLeftParen
| ExpectedRightParenAfterArgument
| ExpectedRightParen
| UnknownFunction string
| UnexpectedToken string

definition isOperator :: "char \<Rightarrow> bool" where
  "isOperator c = (c = CHR ''+'' \<or> c = CHR ''-'' \<or> c = CHR ''*'' \<or> c = CHR ''/'' \<or> c = CHR ''^'')"

definition isNumberChar :: "char \<Rightarrow> bool" where
  "isNumberChar c = (isDigit c \<or> c = CHR ''.'')"

definition isIdentifierChar :: "char \<Rightarrow> bool" where
  "isIdentifierChar c = (isLetterOrNumber c \<or> c = CHR ''_'')"

definition M_PI :: double where
  "M_PI = Finite pi"

definition M_E :: double where
  "M_E = Finite (exp 1)"

text \<open>The token of an identifier: a function name, one of the constants, or a variable.\<close>

definition identifierToken :: "string \<Rightarrow> Token" where
  "identifierToken v =
     (if v = ''abs'' \<or> v = ''sqrt'' \<or> v = ''log'' \<or> v = ''exp'' \<or> v = ''sin'' \<or> v = ''cos'' \<or>
         v = ''tan''
      then mkToken TOKEN_FUNCTION v (Finite 0)
      else if v = ''pi'' then mkToken TOKEN_NUMBER v M_PI
      else if v = ''e'' then mkToken TOKEN_NUMBER v M_E
      else mkToken TOKEN_VARIABLE v (Finite 0))"

text \<open>
  The scanning loop of \<open>tokenize\<close>: \<open>i\<close> is the index of the first character of the
  rest \<open>cs\<close> of the trimmed expression, \<open>tokens\<close> the tokens appended so far. An invalid
  character ends the scan with the message that \<open>errorMessage\<close> receives.
\<close>

function tokenizeFrom :: "nat \<Rightarrow> string \<Rightarrow> Token list \<Rightarrow> ParseError + Token list" where
  "tokenizeFrom i [] tokens = Inr (tokens @ [mkToken TOKEN_END [] (Finite 0)])"
| "tokenizeFrom i (c # cs) tokens =
     (if isSpace c then tokenizeFrom (i + 1) cs tokens
      else if isDigit c \<or> c = CHR ''.'' then
        (let v = c # takeWhile isNumberChar cs
         in tokenizeFrom (i + length v) (dropWhile isNumberChar cs)
              (tokens @ [mkToken TOKEN_NUMBER v (toDouble v)]))
      else if isLetter c then
        (let v = c # takeWhile isIdentifierChar cs
         in tokenizeFrom (i + length v) (dropWhile isIdentifierChar cs)
              (tokens @ [identifierToken v]))
      else if isOperator c then
        tokenizeFrom (i + 1) cs (tokens @ [mkToken TOKEN_OPERATOR [c] (Finite 0)])
      else if c = CHR ''('' then
        tokenizeFrom (i + 1) cs (tokens @ [mkToken TOKEN_LEFT_PAREN [c] (Finite 0)])
      else if c = CHR '')'' then
        tokenizeFrom (i + 1) cs (tokens @ [mkToken TOKEN_RIGHT_PAREN [c] (Finite 0)])
      else if c = CHR '','' then
        tokenizeFrom (i + 1) cs (tokens @ [mkToken TOKEN_COMMA [c] (Finite 0)])
      else Inl (InvalidCharacter i c))"
  by pat_completeness auto
termination
  by (relation "measure (\<lambda>(i, cs, tokens). length cs)")
     (auto simp: less_Suc_eq_le length_dropWhile_le)

definition tokenize :: "string \<Rightarrow> ParseError + Token list" where
  "tokenize expression = tokenizeFrom 0 (trimmed expression) []"

subsection \<open>The expression tree\<close>

datatype OperatorType = OP_ADD | OP_SUBTRACT | OP_MULTIPLY | OP_DIVIDE | OP_POWER | OP_NEGATE

datatype FunctionType = FUNC_ABS | FUNC_SQRT | FUNC_LOG | FUNC_EXP | FUNC_SIN | FUNC_COS | FUNC_TAN

text \<open>
  The struct \<open>ExpressionNode\<close>, by its \<open>type\<close> tag, with the fields that the code reads
  for that tag. A \<open>NodePtr\<close> is an \<open>ExpressionNode option\<close>: \<open>None\<close> is the null pointer.
  An operator node has the children \<open>left\<close> and \<open>right\<close>, a function node has
  \<open>argument\<close>.
\<close>

datatype ExpressionNode =
  NODE_NUMBER double
| NODE_VARIABLE string
| NODE_OPERATOR OperatorType "ExpressionNode option" "ExpressionNode option"
| NODE_FUNCTION FunctionType "ExpressionNode option"

type_synonym NodePtr = "ExpressionNode option"

subsection \<open>Recursive descent\<close>

text \<open>
  A parsing function of the source takes the token list and the position \<open>pos\<close> by
  reference, and returns a node or throws a message. Here it returns the node with the new
  position, or the message thrown. The functions call each other in a cycle, so each takes
  a bound \<open>fuel\<close> on the depth of the calls that follow the consumption of a token;
  \<open>OutOfFuel\<close> is not a result of the source. The function \<open>parse\<close> below starts with
  the number of tokens as fuel, which is enough (lemma \<open>parseExpression_fuel\<close>).
\<close>

datatype 'a outcome = Return 'a | Throw ParseError | OutOfFuel

definition isOperatorToken :: "Token list \<Rightarrow> nat \<Rightarrow> string list \<Rightarrow> bool" where
  "isOperatorToken tokens pos ops =
     (pos < length tokens \<and> ttype (tokens ! pos) = TOKEN_OPERATOR \<and> tvalue (tokens ! pos) \<in> set ops)"

text \<open>\<open>pos >= tokens.size() || tokens[pos].type != t\<close>\<close>

definition notTokenAt :: "Token list \<Rightarrow> nat \<Rightarrow> TokenType \<Rightarrow> bool" where
  "notTokenAt tokens pos t = (pos \<ge> length tokens \<or> ttype (tokens ! pos) \<noteq> t)"

definition functionTypeOf :: "string \<Rightarrow> FunctionType option" where
  "functionTypeOf funcName =
     (if funcName = ''abs'' then Some FUNC_ABS
      else if funcName = ''sqrt'' then Some FUNC_SQRT
      else if funcName = ''log'' then Some FUNC_LOG
      else if funcName = ''exp'' then Some FUNC_EXP
      else if funcName = ''sin'' then Some FUNC_SIN
      else if funcName = ''cos'' then Some FUNC_COS
      else if funcName = ''tan'' then Some FUNC_TAN
      else None)"

function parseExpression :: "nat \<Rightarrow> Token list \<Rightarrow> nat \<Rightarrow> (ExpressionNode \<times> nat) outcome"
  and parseExpressionLoop :: "nat \<Rightarrow> Token list \<Rightarrow> nat \<Rightarrow> ExpressionNode \<Rightarrow> (ExpressionNode \<times> nat) outcome"
  and parseTerm :: "nat \<Rightarrow> Token list \<Rightarrow> nat \<Rightarrow> (ExpressionNode \<times> nat) outcome"
  and parseTermLoop :: "nat \<Rightarrow> Token list \<Rightarrow> nat \<Rightarrow> ExpressionNode \<Rightarrow> (ExpressionNode \<times> nat) outcome"
  and parsePower :: "nat \<Rightarrow> Token list \<Rightarrow> nat \<Rightarrow> (ExpressionNode \<times> nat) outcome"
  and parseUnary :: "nat \<Rightarrow> Token list \<Rightarrow> nat \<Rightarrow> (ExpressionNode \<times> nat) outcome"
  and parsePrimary :: "nat \<Rightarrow> Token list \<Rightarrow> nat \<Rightarrow> (ExpressionNode \<times> nat) outcome"
where
  "parseExpression fuel tokens pos =
     (case parseTerm fuel tokens pos of
        Return (left, pos1) \<Rightarrow> parseExpressionLoop fuel tokens pos1 left
      | failure \<Rightarrow> failure)"
| "parseExpressionLoop fuel tokens pos left =
     (if isOperatorToken tokens pos [''+'', ''-''] then
        (case fuel of
           0 \<Rightarrow> OutOfFuel
         | Suc fuel' \<Rightarrow>
             (case parseTerm fuel' tokens (pos + 1) of
                Return (right, pos1) \<Rightarrow>
                  parseExpressionLoop fuel' tokens pos1
                    (NODE_OPERATOR (if tvalue (tokens ! pos) = ''+'' then OP_ADD else OP_SUBTRACT)
                       (Some left) (Some right))
              | failure \<Rightarrow> failure))
      else Return (left, pos))"
| "parseTerm fuel tokens pos =
     (case parsePower fuel tokens pos of
        Return (left, pos1) \<Rightarrow> parseTermLoop fuel tokens pos1 left
      | failure \<Rightarrow> failure)"
| "parseTermLoop fuel tokens pos left =
     (if isOperatorToken tokens pos [''*'', ''/''] then
        (case fuel of
           0 \<Rightarrow> OutOfFuel
         | Suc fuel' \<Rightarrow>
             (case parsePower fuel' tokens (pos + 1) of
                Return (right, pos1) \<Rightarrow>
                  parseTermLoop fuel' tokens pos1
                    (NODE_OPERATOR (if tvalue (tokens ! pos) = ''*'' then OP_MULTIPLY else OP_DIVIDE)
                       (Some left) (Some right))
              | failure \<Rightarrow> failure))
      else Return (left, pos))"
| "parsePower fuel tokens pos =
     (case parseUnary fuel tokens pos of
        Return (left, pos1) \<Rightarrow>
          (if isOperatorToken tokens pos1 [''^''] then
             (case fuel of
                0 \<Rightarrow> OutOfFuel
              | Suc fuel' \<Rightarrow>
                  (case parsePower fuel' tokens (pos1 + 1) of
                     Return (right, pos2) \<Rightarrow>
                       Return (NODE_OPERATOR OP_POWER (Some left) (Some right), pos2)
                   | failure \<Rightarrow> failure))
           else Return (left, pos1))
      | failure \<Rightarrow> failure)"
| "parseUnary fuel tokens pos =
     (if isOperatorToken tokens pos [''-''] then
        (case fuel of
           0 \<Rightarrow> OutOfFuel
         | Suc fuel' \<Rightarrow>
             (case parseUnary fuel' tokens (pos + 1) of
                Return (operand, pos1) \<Rightarrow> Return (NODE_OPERATOR OP_NEGATE (Some operand) None, pos1)
              | failure \<Rightarrow> failure))
      else parsePrimary fuel tokens pos)"
| "parsePrimary fuel tokens pos =
     (if pos \<ge> length tokens then Throw UnexpectedEnd
      else if ttype (tokens ! pos) = TOKEN_NUMBER then
        Return (NODE_NUMBER (numberValue (tokens ! pos)), pos + 1)
      else if ttype (tokens ! pos) = TOKEN_VARIABLE then
        Return (NODE_VARIABLE (tvalue (tokens ! pos)), pos + 1)
      else if ttype (tokens ! pos) = TOKEN_FUNCTION then
        (if notTokenAt tokens (pos + 1) TOKEN_LEFT_PAREN then Throw ExpectedLeftParen
         else
           (case fuel of
              0 \<Rightarrow> OutOfFuel
            | Suc fuel' \<Rightarrow>
                (case parseExpression fuel' tokens (pos + 2) of
                   Return (argument, pos1) \<Rightarrow>
                     (if notTokenAt tokens pos1 TOKEN_RIGHT_PAREN
                      then Throw ExpectedRightParenAfterArgument
                      else
                        (case functionTypeOf (tvalue (tokens ! pos)) of
                           Some f \<Rightarrow> Return (NODE_FUNCTION f (Some argument), pos1 + 1)
                         | None \<Rightarrow> Throw (UnknownFunction (tvalue (tokens ! pos)))))
                 | failure \<Rightarrow> failure)))
      else if ttype (tokens ! pos) = TOKEN_LEFT_PAREN then
        (case fuel of
           0 \<Rightarrow> OutOfFuel
         | Suc fuel' \<Rightarrow>
             (case parseExpression fuel' tokens (pos + 1) of
                Return (node, pos1) \<Rightarrow>
                  (if notTokenAt tokens pos1 TOKEN_RIGHT_PAREN then Throw ExpectedRightParen
                   else Return (node, pos1 + 1))
              | failure \<Rightarrow> failure))
      else Throw (UnexpectedToken (tvalue (tokens ! pos))))"

  by pat_completeness auto
termination
  by (relation "measure (\<lambda>x. case x of
        Inl (Inl (fuel, _)) \<Rightarrow> 7 * fuel + 6
      | Inl (Inr (Inl (fuel, _))) \<Rightarrow> 7 * fuel + 5
      | Inl (Inr (Inr (fuel, _))) \<Rightarrow> 7 * fuel + 4
      | Inr (Inl (Inl (fuel, _))) \<Rightarrow> 7 * fuel + 3
      | Inr (Inl (Inr (fuel, _))) \<Rightarrow> 7 * fuel + 2
      | Inr (Inr (Inl (fuel, _))) \<Rightarrow> 7 * fuel + 1
      | Inr (Inr (Inr (fuel, _))) \<Rightarrow> 7 * fuel)") auto

declare parseExpression.simps [simp del] parseExpressionLoop.simps [simp del]
  parseTerm.simps [simp del] parseTermLoop.simps [simp del] parsePower.simps [simp del]
  parseUnary.simps [simp del] parsePrimary.simps [simp del]

subsection \<open>The parser object: parse, evaluate, getVariables\<close>

text \<open>
  The members \<open>rootNode\<close> and \<open>errorMessage\<close>; an empty message is \<open>None\<close>.
\<close>

record MathExpressionParser =
  rootNode :: NodePtr
  errorMessage :: "ParseError option"

definition newParser :: MathExpressionParser where
  "newParser = \<lparr>rootNode = None, errorMessage = None\<rparr>"

text \<open>
  \<open>parse\<close> returns the boolean of the source and the parser after the call. The result
  is \<open>None\<close> only if the descent runs out of fuel, which lemma \<open>parse_returns\<close> excludes.
\<close>

definition parse :: "string \<Rightarrow> MathExpressionParser \<Rightarrow> (bool \<times> MathExpressionParser) option" where
  "parse expression p0 =
     (let p = p0\<lparr>errorMessage := None, rootNode := None\<rparr>
      in if trimmed expression = [] then Some (False, p\<lparr>errorMessage := Some EmptyExpression\<rparr>)
         else
           (case tokenize expression of
              Inl err \<Rightarrow> Some (False, p\<lparr>errorMessage := Some err\<rparr>)
            | Inr tokens \<Rightarrow>
                (case parseExpression (length tokens) tokens 0 of
                   OutOfFuel \<Rightarrow> None
                 | Throw err \<Rightarrow> Some (False, p\<lparr>errorMessage := Some err\<rparr>)
                 | Return (node, pos) \<Rightarrow>
                     (let p1 = p\<lparr>rootNode := Some node\<rparr>
                      in if pos < length tokens \<and> ttype (tokens ! pos) \<noteq> TOKEN_END
                         then Some (False,
                                p1\<lparr>errorMessage := Some (UnexpectedTokenAt pos (tvalue (tokens ! pos)))\<rparr>)
                         else Some (rootNode p1 \<noteq> None, p1)))))"

text \<open>
  \<open>evaluateNode\<close> returns \<open>false\<close> or sets \<open>result\<close> and returns \<open>true\<close>: here
  \<open>None\<close> or \<open>Some result\<close>. The variables are a \<open>QMap<QString, double>\<close>.
\<close>

fun evaluateNode :: "NodePtr \<Rightarrow> (string \<rightharpoonup> double) \<Rightarrow> double option" where
  "evaluateNode None variables = None"
| "evaluateNode (Some (NODE_NUMBER v)) variables = Some v"
| "evaluateNode (Some (NODE_VARIABLE name)) variables =
     (case variables name of None \<Rightarrow> None | Some v \<Rightarrow> Some v)"
| "evaluateNode (Some (NODE_OPERATOR operatorType left right)) variables =
     (if operatorType = OP_NEGATE then
        (case evaluateNode left variables of
           None \<Rightarrow> None
         | Some leftVal \<Rightarrow> Some (dneg leftVal))
      else
        (case evaluateNode left variables of
           None \<Rightarrow> None
         | Some leftVal \<Rightarrow>
             (case evaluateNode right variables of
                None \<Rightarrow> None
              | Some rightVal \<Rightarrow>
                  (case operatorType of
                     OP_ADD \<Rightarrow> Some (dadd leftVal rightVal)
                   | OP_SUBTRACT \<Rightarrow> Some (dsub leftVal rightVal)
                   | OP_MULTIPLY \<Rightarrow> Some (dmul leftVal rightVal)
                   | OP_DIVIDE \<Rightarrow> if eq_zero rightVal then None else Some (ddiv leftVal rightVal)
                   | OP_POWER \<Rightarrow> Some (dpow leftVal rightVal)
                   | OP_NEGATE \<Rightarrow> None))))"
| "evaluateNode (Some (NODE_FUNCTION functionType argument)) variables =
     (case evaluateNode argument variables of
        None \<Rightarrow> None
      | Some argVal \<Rightarrow>
          (case functionType of
             FUNC_ABS \<Rightarrow> Some (dfabs argVal)
           | FUNC_SQRT \<Rightarrow> if lt_zero argVal then None else Some (dsqrt argVal)
           | FUNC_LOG \<Rightarrow> if le_zero argVal then None else Some (dlog argVal)
           | FUNC_EXP \<Rightarrow> Some (dexp argVal)
           | FUNC_SIN \<Rightarrow> Some (dsin argVal)
           | FUNC_COS \<Rightarrow> Some (dcos argVal)
           | FUNC_TAN \<Rightarrow> Some (dtan argVal)))"

definition evaluate :: "MathExpressionParser \<Rightarrow> (string \<rightharpoonup> double) \<Rightarrow> double option" where
  "evaluate p variables =
     (if rootNode p = None then None else evaluateNode (rootNode p) variables)"

text \<open>\<open>collectVariables\<close> appends to the list passed by reference; here it returns it.\<close>

fun collectVariables :: "NodePtr \<Rightarrow> string list \<Rightarrow> string list" where
  "collectVariables None variables = variables"
| "collectVariables (Some (NODE_NUMBER v)) variables = variables"
| "collectVariables (Some (NODE_VARIABLE name)) variables =
     (if name \<in> set variables then variables else variables @ [name])"
| "collectVariables (Some (NODE_OPERATOR operatorType left right)) variables =
     collectVariables right (collectVariables left variables)"
| "collectVariables (Some (NODE_FUNCTION functionType argument)) variables =
     collectVariables argument variables"

definition getVariables :: "MathExpressionParser \<Rightarrow> string list" where
  "getVariables p = (if rootNode p = None then [] else collectVariables (rootNode p) [])"

section \<open>The trace computer (math_trace_computer.cpp)\<close>

subsection \<open>Data series\<close>

text \<open>
  A \<open>DataSeries\<close> is its samples, in storage order: pairs of a timestamp and a value.
  Timestamps and the gap size are finite doubles, modelled by the reals they denote, so
  that \<open><\<close> on timestamps is the order of \<open>std::set<double>\<close>.
\<close>

type_synonym DataSeries = "(real \<times> double) list"

text \<open>
  Modelled from the spec: \<open>DataSeries\<close> is declared in data_series.hpp, which is not
  among the sources. \<open>size()\<close> is the number of samples (\<open>length\<close> here) and
  \<open>getTimestamp(i)\<close> the timestamp of the sample at index \<open>i\<close>.
\<close>

definition getTimestamp :: "DataSeries \<Rightarrow> nat \<Rightarrow> real" where
  "getTimestamp s i = fst (s ! i)"

text \<open>
  Modelled from the spec: \<open>DataSeries::getIndexForTimestamp\<close>, of the same header, has
  insertion-point semantics: the first index whose timestamp is \<open>>= t\<close>, the size when
  \<open>t\<close> exceeds all entries, \<open>0\<close> when it is before all entries.
\<close>

definition getIndexForTimestamp :: "DataSeries \<Rightarrow> real \<Rightarrow> nat" where
  "getIndexForTimestamp s t = length (takeWhile (\<lambda>sample. fst sample < t) s)"

text \<open>
  Modelled from the spec: the output series is used through \<open>clearData\<close>, \<open>addData\<close>
  and \<open>update\<close> of \<open>DataSeries\<close>, which the spec names clear, append and finalize. It is
  its samples and the number of calls of \<open>update()\<close>.
\<close>

record OutputSeries =
  samples :: "(real \<times> double) list"
  updates :: nat

definition clearData :: "OutputSeries \<Rightarrow> OutputSeries" where
  "clearData os = os\<lparr>samples := []\<rparr>"

definition addData :: "real \<Rightarrow> double \<Rightarrow> OutputSeries \<Rightarrow> OutputSeries" where
  "addData timestamp v os = os\<lparr>samples := samples os @ [(timestamp, v)]\<rparr>"

definition update :: "OutputSeries \<Rightarrow> OutputSeries" where
  "update os = os\<lparr>updates := updates os + 1\<rparr>"

text \<open>
  A \<open>QMap<QString, DataSeriesPointer>\<close> is the list of its entries in iteration order.
  \<open>seriesOf\<close> is \<open>operator[]\<close>, which the code applies to keys that \<open>contains\<close> has
  accepted; on another key the map yields a null pointer, read here as a series with no
  samples.
\<close>

type_synonym SeriesMap = "(string \<times> DataSeries) list"

definition contains :: "SeriesMap \<Rightarrow> string \<Rightarrow> bool" where
  "contains m var = (map_of m var \<noteq> None)"

definition seriesOf :: "SeriesMap \<Rightarrow> string \<Rightarrow> DataSeries" where
  "seriesOf m var = (case map_of m var of Some s \<Rightarrow> s | None \<Rightarrow> [])"

subsection \<open>collectTimestamps\<close>

text \<open>\<open>std::set<double>::insert\<close> on the ascending sequence of the elements of the set.\<close>

fun set_insert :: "real \<Rightarrow> real list \<Rightarrow> real list" where
  "set_insert x [] = [x]"
| "set_insert x (y # ys) =
     (if x < y then x # y # ys else if y < x then y # set_insert x ys else y # ys)"

text \<open>The inner loop over the indices of one series, and the outer loop over the map.\<close>

definition insertTimestamps :: "DataSeries \<Rightarrow> real list \<Rightarrow> real list" where
  "insertTimestamps s timestampSet =
     fold (\<lambda>i acc. set_insert (getTimestamp s i) acc) [0..<length s] timestampSet"

definition collectTimestamps :: "SeriesMap \<Rightarrow> real list" where
  "collectTimestamps series = fold (\<lambda>entry acc. insertTimestamps (snd entry) acc) series []"

subsection \<open>isTimestampValid\<close>

fun isTimestampValid :: "real \<Rightarrow> SeriesMap \<Rightarrow> real \<Rightarrow> bool" where
  "isTimestampValid timestamp [] maxGapSize = True"
| "isTimestampValid timestamp (entry # rest) maxGapSize =
     (let s = snd entry; idx = getIndexForTimestamp s timestamp
      in if idx = 0 \<or> idx \<ge> length s then
           (if idx = 0 \<and> length s > 0 then
              (if \<bar>timestamp - getTimestamp s 0\<bar> > maxGapSize then False
               else isTimestampValid timestamp rest maxGapSize)
            else if idx \<ge> length s \<and> length s > 0 then
              (if \<bar>timestamp - getTimestamp s (length s - 1)\<bar> > maxGapSize then False
               else isTimestampValid timestamp rest maxGapSize)
            else isTimestampValid timestamp rest maxGapSize)
         else
           (if getTimestamp s idx - getTimestamp s (idx - 1) > maxGapSize then False
            else isTimestampValid timestamp rest maxGapSize))"

subsection \<open>startComputation\<close>

text \<open>
  The reasons passed to \<open>computationFailed\<close>, one constructor for each message text:
  \<^item> \<open>FailedToParse e\<close>: "Failed to parse expression: e"
  \<^item> \<open>VariableNotFound v\<close>: "Variable 'v' not found in mapping"
  \<^item> \<open>InputSeriesEmpty v\<close>: "Input series for variable 'v' is empty"
  \<^item> \<open>NoTimestampsFound\<close>: "No timestamps found in input series"
  \<^item> \<open>ComputationCancelled\<close>: "Computation cancelled"
  \<^item> \<open>NoValidResults k\<close>: "Expression produced no valid results (k points skipped) -
    check for division by zero or invalid operations"
\<close>

datatype FailureReason =
  FailedToParse "ParseError option"
| VariableNotFound string
| InputSeriesEmpty string
| NoTimestampsFound
| ComputationCancelled
| NoValidResults int

text \<open>The four signals of the class.\<close>

datatype Signal =
  computationStarted
| progressUpdated int
| computationComplete
| computationFailed FailureReason

text \<open>
  What a run reads: the members set by \<open>compute\<close>, the function \<open>getValueAtTime\<close> of
  the series in mode INTERPOLATE (of data_series.hpp, a parameter here), and the value
  of the flag \<open>cancelRequested\<close> at the check that opens iteration \<open>i\<close>.
\<close>

record Computation =
  currentExpression :: string
  currentVariableMapping :: SeriesMap
  currentOutputSeries :: OutputSeries
  currentMaxGapSize :: real
  getValueAtTime :: "DataSeries \<Rightarrow> real \<Rightarrow> double"
  cancelRequested :: "nat \<Rightarrow> bool"

text \<open>
  The interpolation loop over the required variables: \<open>None\<close> when a value is NaN or
  infinite (\<open>allValid = false\<close>), else the map \<open>variableValues\<close>.
\<close>

fun interpolateVariables ::
  "Computation \<Rightarrow> real \<Rightarrow> string list \<Rightarrow> (string \<rightharpoonup> double) \<Rightarrow> (string \<rightharpoonup> double) option" where
  "interpolateVariables c timestamp [] variableValues = Some variableValues"
| "interpolateVariables c timestamp (var # vars) variableValues =
     (let v = getValueAtTime c (seriesOf (currentVariableMapping c) var) timestamp
      in if isnan v \<or> isinf v then None
         else interpolateVariables c timestamp vars (variableValues(var \<mapsto> v)))"

text \<open>
  The body of an iteration up to the point where a sample is added: \<open>None\<close> on each of
  the four paths that count a skipped point, else the result to add.
\<close>

definition computePoint :: "Computation \<Rightarrow> MathExpressionParser \<Rightarrow> string list \<Rightarrow> real \<Rightarrow> double option" where
  "computePoint c parser requiredVars timestamp =
     (if \<not> isTimestampValid timestamp (currentVariableMapping c) (currentMaxGapSize c) then None
      else
        (case interpolateVariables c timestamp requiredVars Map.empty of
           None \<Rightarrow> None
         | Some variableValues \<Rightarrow>
             (case evaluate parser variableValues of
                None \<Rightarrow> None
              | Some result \<Rightarrow> if isnan result \<or> isinf result then None else Some result)))"

text \<open>
  Arithmetic of \<open>int\<close>: \<open>int32\<close> is the value of a 32-bit result (wrap-around where the
  exact result does not fit), \<open>cdiv\<close> and \<open>cmod\<close> are \<open>/\<close> and \<open>%\<close>, which truncate
  towards zero. The product \<open>i * 100\<close> is the one operation of the loop that can leave
  the range: the index and the two counters stay below the number of timestamps.
\<close>

definition int32 :: "int \<Rightarrow> int" where
  "int32 x = (x + 2 ^ 31) mod 2 ^ 32 - 2 ^ 31"

definition cdiv :: "int \<Rightarrow> int \<Rightarrow> int" where
  "cdiv a b = sgn a * sgn b * (\<bar>a\<bar> div \<bar>b\<bar>)"

definition cmod :: "int \<Rightarrow> int \<Rightarrow> int" where
  "cmod a b = a - cdiv a b * b"

text \<open>The locals of the loop, the output series and the signals emitted so far.\<close>

record LoopState =
  out :: OutputSeries
  lastProgress :: int
  validPoints :: int
  skippedPoints :: int
  emitted :: "Signal list"

text \<open>
  The main loop from iteration \<open>i\<close> on. The boolean is \<open>True\<close> when the loop was left
  by the \<open>return\<close> of the cancellation check.
\<close>

function computeLoop ::
  "Computation \<Rightarrow> MathExpressionParser \<Rightarrow> string list \<Rightarrow> real list \<Rightarrow> nat \<Rightarrow> LoopState \<Rightarrow> LoopState \<times> bool" where
  "computeLoop c parser requiredVars timestamps i st =
     (if i < length timestamps then
        (if cancelRequested c i then
           (st\<lparr>emitted := emitted st @ [computationFailed ComputationCancelled]\<rparr>, True)
         else
           (case computePoint c parser requiredVars (timestamps ! i) of
              None \<Rightarrow>
                computeLoop c parser requiredVars timestamps (i + 1)
                  (st\<lparr>skippedPoints := skippedPoints st + 1\<rparr>)
            | Some result \<Rightarrow>
                (let st1 = st\<lparr>out := addData (timestamps ! i) result (out st),
                               validPoints := validPoints st + 1\<rparr>;
                     progress = cdiv (int32 (int i * 100)) (int (length timestamps))
                 in if progress \<noteq> lastProgress st1 \<and> cmod progress 10 = 0 then
                      computeLoop c parser requiredVars timestamps (i + 1)
                        (st1\<lparr>emitted := emitted st1 @ [progressUpdated progress],
                             lastProgress := progress\<rparr>)
                    else computeLoop c parser requiredVars timestamps (i + 1) st1)))
      else (st, False))"
  by pat_completeness auto
termination
  by (relation "measure (\<lambda>(c, parser, requiredVars, timestamps, i, st). length timestamps - i)") auto

declare computeLoop.simps [simp del]

text \<open>
  The result of a run: the signals in the order of emission, the output series, and the
  final values of the two counters of the loop, which a run that completes writes to the
  debug log.
\<close>

record RunResult =
  signals :: "Signal list"
  outputSeries :: OutputSeries
  validCount :: int
  skippedCount :: int

definition failRun :: "Computation \<Rightarrow> FailureReason \<Rightarrow> RunResult" where
  "failRun c reason =
     \<lparr>signals = [computationStarted, computationFailed reason],
      outputSeries = currentOutputSeries c, validCount = 0, skippedCount = 0\<rparr>"

text \<open>The part of \<open>startComputation\<close> after the four checks: clearing, loop, conclusion.\<close>

definition runLoop :: "Computation \<Rightarrow> MathExpressionParser \<Rightarrow> string list \<Rightarrow> real list \<Rightarrow> RunResult" where
  "runLoop c parser requiredVars timestamps =
     (let st0 = \<lparr>out = clearData (currentOutputSeries c), lastProgress = - 1,
                 validPoints = 0, skippedPoints = 0, emitted = [computationStarted]\<rparr>;
          (st, cancelled) = computeLoop c parser requiredVars timestamps 0 st0
      in if cancelled then
           \<lparr>signals = emitted st, outputSeries = out st,
            validCount = validPoints st, skippedCount = skippedPoints st\<rparr>
         else if validPoints st = 0 then
           \<lparr>signals = emitted st @ [computationFailed (NoValidResults (skippedPoints st))],
            outputSeries = update (out st),
            validCount = validPoints st, skippedCount = skippedPoints st\<rparr>
         else
           \<lparr>signals = emitted st @ [progressUpdated 100, computationComplete],
            outputSeries = update (out st),
            validCount = validPoints st, skippedCount = skippedPoints st\<rparr>)"

text \<open>
  The first part of \<open>startComputation\<close>: parsing and the three checks that follow it.
  The result is the reason of the failure that ends the run there, or the parser, the
  required variables and the timestamps with which the run goes on. It is \<open>None\<close> only
  if \<open>parse\<close> does not return, which lemma \<open>parse_returns\<close> excludes.
\<close>

definition prepare ::
  "Computation \<Rightarrow> (FailureReason + MathExpressionParser \<times> string list \<times> real list) option" where
  "prepare c =
     (case parse (currentExpression c) newParser of
        None \<Rightarrow> None
      | Some (ok, parser) \<Rightarrow>
          Some
           (if \<not> ok then Inl (FailedToParse (errorMessage parser))
            else
              (let requiredVars = getVariables parser
               in case find (\<lambda>var. \<not> contains (currentVariableMapping c) var) requiredVars of
                    Some var \<Rightarrow> Inl (VariableNotFound var)
                  | None \<Rightarrow>
                      (case find (\<lambda>var. length (seriesOf (currentVariableMapping c) var) = 0)
                              requiredVars of
                         Some var \<Rightarrow> Inl (InputSeriesEmpty var)
                       | None \<Rightarrow>
                           (let timestamps = collectTimestamps (currentVariableMapping c)
                            in if timestamps = [] then Inl NoTimestampsFound
                               else Inr (parser, requiredVars, timestamps))))))"

definition startComputation :: "Computation \<Rightarrow> RunResult option" where
  "startComputation c =
     (case prepare c of
        None \<Rightarrow> None
      | Some (Inl reason) \<Rightarrow> Some (failRun c reason)
      | Some (Inr (parser, requiredVars, timestamps)) \<Rightarrow>
          Some (runLoop c parser requiredVars timestamps))"

section \<open>Notions used in the statements\<close>

text \<open>
  A tree as the parser builds it: no null pointer where the evaluator follows one. An
  operator node has a left child, and a right child exactly when it is not a negation; a
  function node has an argument.
\<close>

fun wellFormed :: "NodePtr \<Rightarrow> bool" where
  "wellFormed None = False"
| "wellFormed (Some (NODE_NUMBER v)) = True"
| "wellFormed (Some (NODE_VARIABLE name)) = True"
| "wellFormed (Some (NODE_OPERATOR operatorType left right)) =
     (wellFormed left \<and> (if operatorType = OP_NEGATE then right = None else wellFormed right))"
| "wellFormed (Some (NODE_FUNCTION functionType argument)) = wellFormed argument"

text \<open>
  The four evaluation errors of the specification, anywhere in a tree: a variable that
  the mapping lacks, a division whose divisor is zero, a square root of a negative
  value, a logarithm of a value that is not positive.
\<close>

fun evaluationError :: "NodePtr \<Rightarrow> (string \<rightharpoonup> double) \<Rightarrow> bool" where
  "evaluationError None variables = False"
| "evaluationError (Some (NODE_NUMBER v)) variables = False"
| "evaluationError (Some (NODE_VARIABLE name)) variables = (variables name = None)"
| "evaluationError (Some (NODE_OPERATOR operatorType left right)) variables =
     (evaluationError left variables \<or> evaluationError right variables \<or>
      (operatorType = OP_DIVIDE \<and>
       (case evaluateNode right variables of Some d \<Rightarrow> eq_zero d | None \<Rightarrow> False)))"
| "evaluationError (Some (NODE_FUNCTION functionType argument)) variables =
     (evaluationError argument variables \<or>
      (functionType = FUNC_SQRT \<and>
       (case evaluateNode argument variables of Some d \<Rightarrow> lt_zero d | None \<Rightarrow> False)) \<or>
      (functionType = FUNC_LOG \<and>
       (case evaluateNode argument variables of Some d \<Rightarrow> le_zero d | None \<Rightarrow> False)))"

text \<open>\<open>parse\<close> on a new parser object, then \<open>evaluate\<close>: the two booleans and the result.\<close>

definition parseAndEvaluate :: "string \<Rightarrow> (string \<rightharpoonup> double) \<Rightarrow> (bool \<times> double option) option" where
  "parseAndEvaluate expression variables =
     (case parse expression newParser of
        None \<Rightarrow> None
      | Some (ok, p) \<Rightarrow> Some (ok, evaluate p variables))"

text \<open>
  The token at a position has a given type; it is a given operator. The function names
  of the specification with the functions they denote.
\<close>

definition tokenAt :: "Token list \<Rightarrow> nat \<Rightarrow> TokenType \<Rightarrow> bool" where
  "tokenAt tokens pos t = (pos < length tokens \<and> ttype (tokens ! pos) = t)"

definition operatorAt :: "Token list \<Rightarrow> nat \<Rightarrow> string \<Rightarrow> bool" where
  "operatorAt tokens pos symbol = (tokenAt tokens pos TOKEN_OPERATOR \<and> tvalue (tokens ! pos) = symbol)"

definition functionKinds :: "(string \<times> FunctionType) list" where
  "functionKinds =
     [(''abs'', FUNC_ABS), (''sqrt'', FUNC_SQRT), (''log'', FUNC_LOG), (''exp'', FUNC_EXP),
      (''sin'', FUNC_SIN), (''cos'', FUNC_COS), (''tan'', FUNC_TAN)]"

text \<open>
  The grammar of the specification, over the list of tokens:

  \<^verbatim>\<open>expression := term (('+'|'-') term)*     (left-associative)\<close>

  \<^verbatim>\<open>term       := power (('*'|'/') power)*   (left-associative)\<close>

  \<^verbatim>\<open>power      := unary ('^' power)?          (right-associative)\<close>

  \<^verbatim>\<open>unary      := '-' unary | primary\<close>

  \<^verbatim>\<open>primary    := number | variable | function '(' expression ')' | '(' expression ')'\<close>

  \<open>derivesExpression tokens pos t pos'\<close> says that the tokens from position \<open>pos\<close> up to,
  and not including, position \<open>pos'\<close> are an expression of the grammar, and that \<open>t\<close> is
  its tree; likewise for the other four levels. A repetition is read from left to right:
  \<open>derivesExpressionTail tokens left pos t pos'\<close> says that the tokens from \<open>pos\<close> up to
  \<open>pos'\<close> are a sequence of operators \<open>+\<close> or \<open>-\<close>, each followed by a term, and that \<open>t\<close>
  is the tree that results from \<open>left\<close>, the tree of what precedes \<open>pos\<close>, when each
  operator in turn makes a node of the tree so far and the term that follows it
  (left-associative). \<open>derivesTermTail\<close> is the same for \<open>*\<close> and \<open>/\<close>. The right
  operand of \<open>^\<close> is a power (right-associative).
\<close>

inductive derivesExpression :: "Token list \<Rightarrow> nat \<Rightarrow> ExpressionNode \<Rightarrow> nat \<Rightarrow> bool"
  and derivesExpressionTail :: "Token list \<Rightarrow> ExpressionNode \<Rightarrow> nat \<Rightarrow> ExpressionNode \<Rightarrow> nat \<Rightarrow> bool"
  and derivesTerm :: "Token list \<Rightarrow> nat \<Rightarrow> ExpressionNode \<Rightarrow> nat \<Rightarrow> bool"
  and derivesTermTail :: "Token list \<Rightarrow> ExpressionNode \<Rightarrow> nat \<Rightarrow> ExpressionNode \<Rightarrow> nat \<Rightarrow> bool"
  and derivesPower :: "Token list \<Rightarrow> nat \<Rightarrow> ExpressionNode \<Rightarrow> nat \<Rightarrow> bool"
  and derivesUnary :: "Token list \<Rightarrow> nat \<Rightarrow> ExpressionNode \<Rightarrow> nat \<Rightarrow> bool"
  and derivesPrimary :: "Token list \<Rightarrow> nat \<Rightarrow> ExpressionNode \<Rightarrow> nat \<Rightarrow> bool"
where
  expression_term:
    "derivesTerm tokens pos left pos1 \<Longrightarrow> derivesExpressionTail tokens left pos1 t pos'
     \<Longrightarrow> derivesExpression tokens pos t pos'"
| expression_end:
    "derivesExpressionTail tokens left pos left pos"
| expression_add:
    "operatorAt tokens pos ''+'' \<Longrightarrow> derivesTerm tokens (pos + 1) right pos1
     \<Longrightarrow> derivesExpressionTail tokens (NODE_OPERATOR OP_ADD (Some left) (Some right)) pos1 t pos'
     \<Longrightarrow> derivesExpressionTail tokens left pos t pos'"
| expression_subtract:
    "operatorAt tokens pos ''-'' \<Longrightarrow> derivesTerm tokens (pos + 1) right pos1
     \<Longrightarrow> derivesExpressionTail tokens (NODE_OPERATOR OP_SUBTRACT (Some left) (Some right)) pos1 t pos'
     \<Longrightarrow> derivesExpressionTail tokens left pos t pos'"
| term_power:
    "derivesPower tokens pos left pos1 \<Longrightarrow> derivesTermTail tokens left pos1 t pos'
     \<Longrightarrow> derivesTerm tokens pos t pos'"
| term_end:
    "derivesTermTail tokens left pos left pos"
| term_multiply:
    "operatorAt tokens pos ''*'' \<Longrightarrow> derivesPower tokens (pos + 1) right pos1
     \<Longrightarrow> derivesTermTail tokens (NODE_OPERATOR OP_MULTIPLY (Some left) (Some right)) pos1 t pos'
     \<Longrightarrow> derivesTermTail tokens left pos t pos'"
| term_divide:
    "operatorAt tokens pos ''/'' \<Longrightarrow> derivesPower tokens (pos + 1) right pos1
     \<Longrightarrow> derivesTermTail tokens (NODE_OPERATOR OP_DIVIDE (Some left) (Some right)) pos1 t pos'
     \<Longrightarrow> derivesTermTail tokens left pos t pos'"
| power_unary:
    "derivesUnary tokens pos t pos' \<Longrightarrow> derivesPower tokens pos t pos'"
| power_power:
    "derivesUnary tokens pos left pos1 \<Longrightarrow> operatorAt tokens pos1 ''^''
     \<Longrightarrow> derivesPower tokens (pos1 + 1) right pos'
     \<Longrightarrow> derivesPower tokens pos (NODE_OPERATOR OP_POWER (Some left) (Some right)) pos'"
| unary_negate:
    "operatorAt tokens pos ''-'' \<Longrightarrow> derivesUnary tokens (pos + 1) operand pos'
     \<Longrightarrow> derivesUnary tokens pos (NODE_OPERATOR OP_NEGATE (Some operand) None) pos'"
| unary_primary:
    "derivesPrimary tokens pos t pos' \<Longrightarrow> derivesUnary tokens pos t pos'"
| primary_number:
    "tokenAt tokens pos TOKEN_NUMBER
     \<Longrightarrow> derivesPrimary tokens pos (NODE_NUMBER (numberValue (tokens ! pos))) (pos + 1)"
| primary_variable:
    "tokenAt tokens pos TOKEN_VARIABLE
     \<Longrightarrow> derivesPrimary tokens pos (NODE_VARIABLE (tvalue (tokens ! pos))) (pos + 1)"
| primary_function:
    "tokenAt tokens pos TOKEN_FUNCTION \<Longrightarrow> tokenAt tokens (pos + 1) TOKEN_LEFT_PAREN
     \<Longrightarrow> derivesExpression tokens (pos + 2) argument pos1
     \<Longrightarrow> tokenAt tokens pos1 TOKEN_RIGHT_PAREN
     \<Longrightarrow> map_of functionKinds (tvalue (tokens ! pos)) = Some kind
     \<Longrightarrow> derivesPrimary tokens pos (NODE_FUNCTION kind (Some argument)) (pos1 + 1)"
| primary_parentheses:
    "tokenAt tokens pos TOKEN_LEFT_PAREN \<Longrightarrow> derivesExpression tokens (pos + 1) t pos1
     \<Longrightarrow> tokenAt tokens pos1 TOKEN_RIGHT_PAREN
     \<Longrightarrow> derivesPrimary tokens pos t (pos1 + 1)"

code_pred (modes: i \<Rightarrow> i \<Rightarrow> o \<Rightarrow> o \<Rightarrow> bool) derivesExpression .

text \<open>The timestamps that occur in the series of a map.\<close>

definition allTimestamps :: "SeriesMap \<Rightarrow> real set" where
  "allTimestamps series = (\<Union>entry \<in> set series. fst ` set (snd entry))"

definition timestampsOf :: "DataSeries \<Rightarrow> real list" where
  "timestampsOf s = map fst s"

text \<open>
  The two samples that bracket a timestamp: the latest sample before it and the earliest
  sample at or after it.
\<close>

definition sampleBefore :: "DataSeries \<Rightarrow> real \<Rightarrow> real" where
  "sampleBefore s t = Max (set (filter (\<lambda>x. x < t) (timestampsOf s)))"

definition sampleAfter :: "DataSeries \<Rightarrow> real \<Rightarrow> real" where
  "sampleAfter s t = Min (set (filter (\<lambda>x. t \<le> x) (timestampsOf s)))"

text \<open>
  Validity in one series in the words of the specification: a timestamp at or before the
  first sample, or at or after the last, is judged by its distance to that sample, any
  other by the gap between the samples that bracket it.
\<close>

definition validAsSpecified :: "real \<Rightarrow> DataSeries \<Rightarrow> real \<Rightarrow> bool" where
  "validAsSpecified t s maxGapSize =
     (if t \<le> hd (timestampsOf s) then \<bar>t - hd (timestampsOf s)\<bar> \<le> maxGapSize
      else if last (timestampsOf s) \<le> t then \<bar>t - last (timestampsOf s)\<bar> \<le> maxGapSize
      else sampleAfter s t - sampleBefore s t \<le> maxGapSize)"

text \<open>
  The same with the second case for a timestamp after the last sample only, so that a
  timestamp equal to the last sample is judged by the gap before it.
\<close>

definition validInSeries :: "real \<Rightarrow> DataSeries \<Rightarrow> real \<Rightarrow> bool" where
  "validInSeries t s maxGapSize =
     (if t \<le> hd (timestampsOf s) then \<bar>t - hd (timestampsOf s)\<bar> \<le> maxGapSize
      else if last (timestampsOf s) < t then \<bar>t - last (timestampsOf s)\<bar> \<le> maxGapSize
      else sampleAfter s t - sampleBefore s t \<le> maxGapSize)"

text \<open>The body of the loop of \<open>isTimestampValid\<close> for one series.\<close>

definition seriesCheck :: "real \<Rightarrow> DataSeries \<Rightarrow> real \<Rightarrow> bool" where
  "seriesCheck timestamp s maxGapSize =
     (let idx = getIndexForTimestamp s timestamp
      in if idx = 0 \<or> idx \<ge> length s then
           (if idx = 0 \<and> length s > 0 then \<not> \<bar>timestamp - getTimestamp s 0\<bar> > maxGapSize
            else if idx \<ge> length s \<and> length s > 0 then
              \<not> \<bar>timestamp - getTimestamp s (length s - 1)\<bar> > maxGapSize
            else True)
         else \<not> getTimestamp s idx - getTimestamp s (idx - 1) > maxGapSize)"

text \<open>The samples that the loop adds for a list of timestamps, when it is not cancelled.\<close>

fun writtenPoints ::
  "Computation \<Rightarrow> MathExpressionParser \<Rightarrow> string list \<Rightarrow> real list \<Rightarrow> (real \<times> double) list" where
  "writtenPoints c parser requiredVars [] = []"
| "writtenPoints c parser requiredVars (t # ts) =
     (case computePoint c parser requiredVars t of
        None \<Rightarrow> writtenPoints c parser requiredVars ts
      | Some v \<Rightarrow> (t, v) # writtenPoints c parser requiredVars ts)"

text \<open>The values of the \<open>progressUpdated\<close> signals in a list of signals, in order.\<close>

fun progressValues :: "Signal list \<Rightarrow> int list" where
  "progressValues [] = []"
| "progressValues (progressUpdated p # sigs) = p # progressValues sigs"
| "progressValues (sig # sigs) = progressValues sigs"

text \<open>
  The progress at iteration \<open>i\<close> of \<open>n\<close>, and what the loop maintains about the progress
  values emitted before iteration \<open>i\<close>: they increase, each is a multiple of ten that is
  the progress of an earlier iteration, and none exceeds \<open>lastProgress\<close>.
\<close>

definition progressAt :: "nat \<Rightarrow> nat \<Rightarrow> int" where
  "progressAt n i = int i * 100 div int n"

definition progressInvariant :: "nat \<Rightarrow> nat \<Rightarrow> LoopState \<Rightarrow> bool" where
  "progressInvariant n i st =
     (sorted_wrt (<) (progressValues (emitted st)) \<and>
      (\<forall>p \<in> set (progressValues (emitted st)).
          p \<le> lastProgress st \<and> p mod 10 = 0 \<and> (\<exists>j<i. p = progressAt n j)) \<and>
      (lastProgress st = - 1 \<or> (\<exists>j<i. lastProgress st = progressAt n j)))"

subsection \<open>Example data\<close>

text \<open>
  A series from its timestamps and values. The instance of \<open>getValueAtTime\<close> of the
  examples returns, at the timestamp of a sample, the value of that sample, as
  interpolation does; the examples ask for no other timestamp.
\<close>

definition mkSeries :: "real list \<Rightarrow> double list \<Rightarrow> DataSeries" where
  "mkSeries ts vs = zip ts vs"

definition valueAtSample :: "DataSeries \<Rightarrow> real \<Rightarrow> double" where
  "valueAtSample s t = (case map_of s t of Some v \<Rightarrow> v | None \<Rightarrow> NaN)"

definition emptyOutput :: OutputSeries where
  "emptyOutput = \<lparr>samples = [], updates = 0\<rparr>"

text \<open>A run of \<open>expression\<close> over one series bound to \<open>a\<close>, with the default gap size.\<close>

definition exampleRun :: "string \<Rightarrow> DataSeries \<Rightarrow> (nat \<Rightarrow> bool) \<Rightarrow> Computation" where
  "exampleRun expression s cancel =
     \<lparr>currentExpression = expression, currentVariableMapping = [(''a'', s)],
      currentOutputSeries = emptyOutput, currentMaxGapSize = 1000,
      getValueAtTime = valueAtSample, cancelRequested = cancel\<rparr>"

text \<open>
  The tokens of "-2*3^2 - abs(x)" and its tree: the negation applies to 2, the power is an
  operand of the product, and the product and the function call are the operands of the
  subtraction.
\<close>

definition exampleTokens :: "Token list" where
  "exampleTokens =
     [mkToken TOKEN_OPERATOR ''-'' (Finite 0), mkToken TOKEN_NUMBER ''2'' (Finite 2),
      mkToken TOKEN_OPERATOR ''*'' (Finite 0), mkToken TOKEN_NUMBER ''3'' (Finite 3),
      mkToken TOKEN_OPERATOR ''^'' (Finite 0), mkToken TOKEN_NUMBER ''2'' (Finite 2),
      mkToken TOKEN_OPERATOR ''-'' (Finite 0), mkToken TOKEN_FUNCTION ''abs'' (Finite 0),
      mkToken TOKEN_LEFT_PAREN ''('' (Finite 0), mkToken TOKEN_VARIABLE ''x'' (Finite 0),
      mkToken TOKEN_RIGHT_PAREN '')'' (Finite 0), mkToken TOKEN_END [] (Finite 0)]"

definition exampleTree :: ExpressionNode where
  "exampleTree =
     NODE_OPERATOR OP_SUBTRACT
       (Some (NODE_OPERATOR OP_MULTIPLY
          (Some (NODE_OPERATOR OP_NEGATE (Some (NODE_NUMBER (Finite 2))) None))
          (Some (NODE_OPERATOR OP_POWER (Some (NODE_NUMBER (Finite 3))) (Some (NODE_NUMBER (Finite 2)))))))
       (Some (NODE_FUNCTION FUNC_ABS (Some (NODE_VARIABLE ''x''))))"

section \<open>Properties of the expression parser\<close>

lemmas parser_simps = parseExpression.simps parseExpressionLoop.simps
  parseTerm.simps parseTermLoop.simps parsePower.simps
  parseUnary.simps parsePrimary.simps isOperatorToken_def notTokenAt_def functionTypeOf_def

lemmas lexer_simps = tokenize_def trimmed_def isSpace_def isDigit_def isLetter_def
  isLetterOrNumber_def isNumberChar_def isIdentifierChar_def isOperator_def
  identifierToken_def mkToken_def toDouble_def digitValue_def Let_def

lemmas engine_simps = parseAndEvaluate_def parse_def newParser_def evaluate_def dsub_def
  pow_finite_def is_integer_def

subsection \<open>The descent returns well-formed trees and never moves backwards\<close>

lemma parser_result:
  shows "parseExpression fuel tokens pos = Return (node, pos') \<Longrightarrow> pos \<le> pos' \<and> wellFormed (Some node)"
    and "parseExpressionLoop fuel tokens pos left = Return (node, pos') \<Longrightarrow> wellFormed (Some left)
           \<Longrightarrow> pos \<le> pos' \<and> wellFormed (Some node)"
    and "parseTerm fuel tokens pos = Return (node, pos') \<Longrightarrow> pos \<le> pos' \<and> wellFormed (Some node)"
    and "parseTermLoop fuel tokens pos left = Return (node, pos') \<Longrightarrow> wellFormed (Some left)
           \<Longrightarrow> pos \<le> pos' \<and> wellFormed (Some node)"
    and "parsePower fuel tokens pos = Return (node, pos') \<Longrightarrow> pos \<le> pos' \<and> wellFormed (Some node)"
    and "parseUnary fuel tokens pos = Return (node, pos') \<Longrightarrow> pos \<le> pos' \<and> wellFormed (Some node)"
    and "parsePrimary fuel tokens pos = Return (node, pos') \<Longrightarrow> pos \<le> pos' \<and> wellFormed (Some node)"
proof (induction fuel tokens pos and fuel tokens pos left and fuel tokens pos
         and fuel tokens pos left and fuel tokens pos and fuel tokens pos and fuel tokens pos
         arbitrary: node pos' and node pos' and node pos' and node pos' and node pos'
           and node pos' and node pos'
         rule: parseExpression_parseExpressionLoop_parseTerm_parseTermLoop_parsePower_parseUnary_parsePrimary.induct)
  case (1 fuel tokens pos)
  from "1.prems" "1.IH" show ?case
    apply (subst (asm) parseExpression.simps)
    apply (auto split: if_splits nat.splits outcome.splits prod.splits option.splits;
           (fastforce intro: order_trans)?)
    done
next
  case (2 fuel tokens pos left)
  from "2.prems" "2.IH" show ?case
    apply (subst (asm) parseExpressionLoop.simps)
    apply (auto split: if_splits nat.splits outcome.splits prod.splits option.splits;
           (fastforce intro: order_trans)?)
    done
next
  case (3 fuel tokens pos)
  from "3.prems" "3.IH" show ?case
    apply (subst (asm) parseTerm.simps)
    apply (auto split: if_splits nat.splits outcome.splits prod.splits option.splits;
           (fastforce intro: order_trans)?)
    done
next
  case (4 fuel tokens pos left)
  from "4.prems" "4.IH" show ?case
    apply (subst (asm) parseTermLoop.simps)
    apply (auto split: if_splits nat.splits outcome.splits prod.splits option.splits;
           (fastforce intro: order_trans)?)
    done
next
  case (5 fuel tokens pos)
  from "5.prems" "5.IH" show ?case
    apply (subst (asm) parsePower.simps)
    apply (auto split: if_splits nat.splits outcome.splits prod.splits option.splits;
           (fastforce intro: order_trans)?)
    done
next
  case (6 fuel tokens pos)
  from "6.prems" "6.IH" show ?case
    apply (subst (asm) parseUnary.simps)
    apply (auto split: if_splits nat.splits outcome.splits prod.splits option.splits;
           (fastforce intro: order_trans)?)
    done
next
  case (7 fuel tokens pos)
  from "7.prems" "7.IH" show ?case
    apply (subst (asm) parsePrimary.simps)
    apply (auto split: if_splits nat.splits outcome.splits prod.splits option.splits;
           (fastforce intro: order_trans)?)
    done
qed

lemma parser_mono:
  shows "parseExpression fuel tokens pos = Return (node, pos') \<Longrightarrow> pos \<le> pos'"
    and "parseTerm fuel tokens pos = Return (node, pos') \<Longrightarrow> pos \<le> pos'"
    and "parsePower fuel tokens pos = Return (node, pos') \<Longrightarrow> pos \<le> pos'"
    and "parseUnary fuel tokens pos = Return (node, pos') \<Longrightarrow> pos \<le> pos'"
  by (simp_all add: parser_result)

subsection \<open>The number of remaining tokens is enough fuel\<close>

lemma parser_fuel:
  shows "length tokens - pos \<le> fuel \<Longrightarrow> parseExpression fuel tokens pos \<noteq> OutOfFuel"
    and "length tokens - pos \<le> fuel \<Longrightarrow> parseExpressionLoop fuel tokens pos left \<noteq> OutOfFuel"
    and "length tokens - pos \<le> fuel \<Longrightarrow> parseTerm fuel tokens pos \<noteq> OutOfFuel"
    and "length tokens - pos \<le> fuel \<Longrightarrow> parseTermLoop fuel tokens pos left \<noteq> OutOfFuel"
    and "length tokens - pos \<le> fuel \<Longrightarrow> parsePower fuel tokens pos \<noteq> OutOfFuel"
    and "length tokens - pos \<le> fuel \<Longrightarrow> parseUnary fuel tokens pos \<noteq> OutOfFuel"
    and "length tokens - pos \<le> fuel \<Longrightarrow> parsePrimary fuel tokens pos \<noteq> OutOfFuel"
proof (induction fuel tokens pos and fuel tokens pos left and fuel tokens pos
         and fuel tokens pos left and fuel tokens pos and fuel tokens pos and fuel tokens pos
         rule: parseExpression_parseExpressionLoop_parseTerm_parseTermLoop_parsePower_parseUnary_parsePrimary.induct)
  case (1 fuel tokens pos)
  from "1.prems" "1.IH" show ?case
    apply (subst parseExpression.simps)
    apply (auto simp: isOperatorToken_def notTokenAt_def
             split: if_splits nat.splits outcome.splits prod.splits option.splits;
           (fastforce dest: parser_mono)?)
    done
next
  case (2 fuel tokens pos left)
  from "2.prems" "2.IH" show ?case
    apply (subst parseExpressionLoop.simps)
    apply (auto simp: isOperatorToken_def notTokenAt_def
             split: if_splits nat.splits outcome.splits prod.splits option.splits;
           (fastforce dest: parser_mono)?)
    done
next
  case (3 fuel tokens pos)
  from "3.prems" "3.IH" show ?case
    apply (subst parseTerm.simps)
    apply (auto simp: isOperatorToken_def notTokenAt_def
             split: if_splits nat.splits outcome.splits prod.splits option.splits;
           (fastforce dest: parser_mono)?)
    done
next
  case (4 fuel tokens pos left)
  from "4.prems" "4.IH" show ?case
    apply (subst parseTermLoop.simps)
    apply (auto simp: isOperatorToken_def notTokenAt_def
             split: if_splits nat.splits outcome.splits prod.splits option.splits;
           (fastforce dest: parser_mono)?)
    done
next
  case (5 fuel tokens pos)
  from "5.prems" "5.IH" show ?case
    apply (subst parsePower.simps)
    apply (auto simp: isOperatorToken_def notTokenAt_def
             split: if_splits nat.splits outcome.splits prod.splits option.splits;
           (fastforce dest: parser_mono)?)
    done
next
  case (6 fuel tokens pos)
  from "6.prems" "6.IH" show ?case
    apply (subst parseUnary.simps)
    apply (auto simp: isOperatorToken_def notTokenAt_def
             split: if_splits nat.splits outcome.splits prod.splits option.splits;
           (fastforce dest: parser_mono)?)
    done
next
  case (7 fuel tokens pos)
  from "7.prems" "7.IH" show ?case
    apply (subst parsePrimary.simps)
    apply (auto simp: isOperatorToken_def notTokenAt_def
             split: if_splits nat.splits outcome.splits prod.splits option.splits;
           (fastforce dest: parser_mono)?)
    done
qed

lemma parseExpression_fuel: "parseExpression (length tokens) tokens 0 \<noteq> OutOfFuel"
  by (rule parser_fuel(1)) simp

lemma parse_returns: "\<exists>r. parse expression p0 = Some r"
  using parseExpression_fuel
  by (auto simp: parse_def Let_def split: sum.splits outcome.splits prod.splits)

lemma parse_wellFormed:
  assumes "parse expression p0 = Some (True, p)"
  shows "wellFormed (rootNode p)"
  using assms
  by (auto simp: parse_def Let_def split: sum.splits outcome.splits prod.splits if_splits
           dest: parser_result(1))

text \<open>
  After a failed \<open>parse\<close> the parser holds a tree only when the failure is the message
  about a token left over.
\<close>

lemma parse_failure_rootNode:
  assumes "parse expression p0 = Some (False, p)"
  shows "rootNode p = None \<or> (\<exists>pos v. errorMessage p = Some (UnexpectedTokenAt pos v))"
  using assms
  by (auto simp: parse_def Let_def split: sum.splits outcome.splits prod.splits if_splits)

subsection \<open>Evaluation\<close>

lemma evaluateNode_None_iff:
  "wellFormed node \<Longrightarrow> (evaluateNode node variables = None) = evaluationError node variables"
proof (induction node variables rule: evaluateNode.induct)
  case (4 operatorType left right variables)
  then show ?case
    by (cases operatorType) (auto split: option.splits)
next
  case (5 functionType argument variables)
  then show ?case
    by (cases functionType) (auto split: option.splits)
qed (auto split: option.splits)

text \<open>
  C6. For every expression that \<open>parse\<close> accepts and every mapping of variables to values,
  \<open>evaluate\<close> fails exactly when the tree has one of the four evaluation errors: a
  variable absent from the mapping, a division by a divisor equal to zero, a square
  root of a negative value, a logarithm of a value that is not positive. Every other
  node yields a value, a NaN from \<open>pow\<close> included.
\<close>

theorem evaluate_fails_iff_evaluationError:
  assumes "parse expression p0 = Some (True, p)"
  shows "(evaluate p variables = None) = evaluationError (rootNode p) variables"
proof -
  have wf: "wellFormed (rootNode p)"
    using assms by (rule parse_wellFormed)
  then have "rootNode p \<noteq> None"
    by (cases "rootNode p") auto
  with wf show ?thesis
    by (simp add: evaluate_def evaluateNode_None_iff)
qed

theorem evaluate_fails_iff_evaluationError_witness:
  "\<exists>p. parse ''1/d + x^0.5'' newParser = Some (True, p) \<and>
       evaluate p [''d'' \<mapsto> Finite 4, ''x'' \<mapsto> Finite (- 8)] = Some NaN \<and>
       \<not> evaluationError (rootNode p) [''d'' \<mapsto> Finite 4, ''x'' \<mapsto> Finite (- 8)] \<and>
       evaluate p [''d'' \<mapsto> Finite 0, ''x'' \<mapsto> Finite 4] = None \<and>
       evaluationError (rootNode p) [''d'' \<mapsto> Finite 0, ''x'' \<mapsto> Finite 4]"
proof -
  define p where "p = \<lparr>rootNode =
      Some (NODE_OPERATOR OP_ADD
        (Some (NODE_OPERATOR OP_DIVIDE (Some (NODE_NUMBER (Finite 1))) (Some (NODE_VARIABLE ''d''))))
        (Some (NODE_OPERATOR OP_POWER (Some (NODE_VARIABLE ''x'')) (Some (NODE_NUMBER (Finite (1 / 2))))))),
      errorMessage = None\<rparr>"
  have ok: "parse ''1/d + x^0.5'' newParser = Some (True, p)"
    by (simp add: p_def parse_def newParser_def lexer_simps parser_simps)
  have nan: "evaluate p [''d'' \<mapsto> Finite 4, ''x'' \<mapsto> Finite (- 8)] = Some NaN"
    by (simp add: p_def engine_simps)
  have none: "evaluate p [''d'' \<mapsto> Finite 0, ''x'' \<mapsto> Finite 4] = None"
    by (simp add: p_def engine_simps)
  from nan none
    evaluate_fails_iff_evaluationError [OF ok, of "[''d'' \<mapsto> Finite 4, ''x'' \<mapsto> Finite (- 8)]"]
    evaluate_fails_iff_evaluationError [OF ok, of "[''d'' \<mapsto> Finite 0, ''x'' \<mapsto> Finite 4]"]
  show ?thesis
    using ok by auto
qed

subsection \<open>The parser and the grammar\<close>

lemmas derives_inducts =
  derivesExpression_derivesExpressionTail_derivesTerm_derivesTermTail_derivesPower_derivesUnary_derivesPrimary.inducts

lemma isOperatorToken_operatorAt:
  "isOperatorToken tokens pos ops = (\<exists>symbol \<in> set ops. operatorAt tokens pos symbol)"
  by (auto simp: operatorAt_def tokenAt_def isOperatorToken_def)

lemma notTokenAt_tokenAt: "notTokenAt tokens pos t = (\<not> tokenAt tokens pos t)"
  by (auto simp: notTokenAt_def tokenAt_def)

lemma functionTypeOf_functionKinds: "functionTypeOf name = map_of functionKinds name"
  by (simp add: functionTypeOf_def functionKinds_def)

text \<open>A derivation consumes tokens: positions move forward and stay within the list.\<close>

lemma derives_positions:
  shows "derivesExpression tokens pos t pos' \<Longrightarrow> pos < pos' \<and> pos' \<le> length tokens"
    and "derivesExpressionTail tokens left pos t pos' \<Longrightarrow>
           pos \<le> pos' \<and> (pos = pos' \<or> pos' \<le> length tokens \<and> isOperatorToken tokens pos [''+'', ''-''])"
    and "derivesTerm tokens pos t pos' \<Longrightarrow> pos < pos' \<and> pos' \<le> length tokens"
    and "derivesTermTail tokens left pos t pos' \<Longrightarrow>
           pos \<le> pos' \<and> (pos = pos' \<or> pos' \<le> length tokens \<and> isOperatorToken tokens pos [''*'', ''/''])"
    and "derivesPower tokens pos t pos' \<Longrightarrow> pos < pos' \<and> pos' \<le> length tokens"
    and "derivesUnary tokens pos t pos' \<Longrightarrow> pos < pos' \<and> pos' \<le> length tokens"
    and "derivesPrimary tokens pos t pos' \<Longrightarrow> pos < pos' \<and> pos' \<le> length tokens"
  by (induction rule: derives_inducts)
     (auto simp: operatorAt_def tokenAt_def isOperatorToken_def)


subsection \<open>Soundness: what the parser returns is a derivation\<close>

lemma primary_Suc:
  shows "tokenAt tokens pos TOKEN_NUMBER
      \<Longrightarrow> derivesPrimary tokens pos (NODE_NUMBER (numberValue (tokens ! pos))) (Suc pos)"
    and "tokenAt tokens pos TOKEN_VARIABLE
      \<Longrightarrow> derivesPrimary tokens pos (NODE_VARIABLE (tvalue (tokens ! pos))) (Suc pos)"
  using primary_number [of tokens pos] primary_variable [of tokens pos]
  by simp_all

lemma parser_sound:
  shows "parseExpression fuel tokens pos = Return (node, pos') \<Longrightarrow> derivesExpression tokens pos node pos'"
    and "parseExpressionLoop fuel tokens pos left = Return (node, pos')
           \<Longrightarrow> derivesExpressionTail tokens left pos node pos'"
    and "parseTerm fuel tokens pos = Return (node, pos') \<Longrightarrow> derivesTerm tokens pos node pos'"
    and "parseTermLoop fuel tokens pos left = Return (node, pos')
           \<Longrightarrow> derivesTermTail tokens left pos node pos'"
    and "parsePower fuel tokens pos = Return (node, pos') \<Longrightarrow> derivesPower tokens pos node pos'"
    and "parseUnary fuel tokens pos = Return (node, pos') \<Longrightarrow> derivesUnary tokens pos node pos'"
    and "parsePrimary fuel tokens pos = Return (node, pos') \<Longrightarrow> derivesPrimary tokens pos node pos'"
proof (induction fuel tokens pos and fuel tokens pos left and fuel tokens pos
         and fuel tokens pos left and fuel tokens pos and fuel tokens pos and fuel tokens pos
         arbitrary: node pos' and node pos' and node pos' and node pos' and node pos'
           and node pos' and node pos'
         rule: parseExpression_parseExpressionLoop_parseTerm_parseTermLoop_parsePower_parseUnary_parsePrimary.induct)
  case (1 fuel tokens pos)
  from "1.prems" obtain left pos1 where
    "parseTerm fuel tokens pos = Return (left, pos1)"
    "parseExpressionLoop fuel tokens pos1 left = Return (node, pos')"
    by (subst (asm) parseExpression.simps) (auto split: outcome.splits prod.splits)
  with "1.IH" show ?case
    by (blast intro: expression_term)
next
  case (2 fuel tokens pos left)
  show ?case
  proof (cases "isOperatorToken tokens pos [''+'', ''-'']")
    case False
    with "2.prems" show ?thesis
      by (subst (asm) parseExpressionLoop.simps) (auto intro: expression_end)
  next
    case True
    with "2.prems" obtain fuel' right pos1 where f: "fuel = Suc fuel'"
      and r: "parseTerm fuel' tokens (pos + 1) = Return (right, pos1)"
      and l: "parseExpressionLoop fuel' tokens pos1
            (NODE_OPERATOR (if tvalue (tokens ! pos) = ''+'' then OP_ADD else OP_SUBTRACT)
               (Some left) (Some right)) = Return (node, pos')"
      by (subst (asm) parseExpressionLoop.simps) (auto split: nat.splits outcome.splits prod.splits)
    from "2.IH"(1) [OF True f r] have right: "derivesTerm tokens (pos + 1) right pos1" .
    from "2.IH"(2) [OF True f r refl l]
    have tail: "derivesExpressionTail tokens
            (NODE_OPERATOR (if tvalue (tokens ! pos) = ''+'' then OP_ADD else OP_SUBTRACT)
               (Some left) (Some right)) pos1 node pos'" .
    from True consider "operatorAt tokens pos ''+''" | "operatorAt tokens pos ''-''"
      by (auto simp: isOperatorToken_operatorAt)
    then show ?thesis
    proof cases
      case 1
      then have "tvalue (tokens ! pos) = ''+''" by (simp add: operatorAt_def)
      with 1 right tail show ?thesis
        by (auto intro: expression_add)
    next
      case 2
      then have "tvalue (tokens ! pos) \<noteq> ''+''" by (simp add: operatorAt_def)
      with 2 right tail show ?thesis
        by (auto intro: expression_subtract)
    qed
  qed
next
  case (3 fuel tokens pos)
  from "3.prems" obtain left pos1 where
    "parsePower fuel tokens pos = Return (left, pos1)"
    "parseTermLoop fuel tokens pos1 left = Return (node, pos')"
    by (subst (asm) parseTerm.simps) (auto split: outcome.splits prod.splits)
  with "3.IH" show ?case
    by (blast intro: term_power)
next
  case (4 fuel tokens pos left)
  show ?case
  proof (cases "isOperatorToken tokens pos [''*'', ''/'']")
    case False
    with "4.prems" show ?thesis
      by (subst (asm) parseTermLoop.simps) (auto intro: term_end)
  next
    case True
    with "4.prems" obtain fuel' right pos1 where f: "fuel = Suc fuel'"
      and r: "parsePower fuel' tokens (pos + 1) = Return (right, pos1)"
      and l: "parseTermLoop fuel' tokens pos1
            (NODE_OPERATOR (if tvalue (tokens ! pos) = ''*'' then OP_MULTIPLY else OP_DIVIDE)
               (Some left) (Some right)) = Return (node, pos')"
      by (subst (asm) parseTermLoop.simps) (auto split: nat.splits outcome.splits prod.splits)
    from "4.IH"(1) [OF True f r] have right: "derivesPower tokens (pos + 1) right pos1" .
    from "4.IH"(2) [OF True f r refl l]
    have tail: "derivesTermTail tokens
            (NODE_OPERATOR (if tvalue (tokens ! pos) = ''*'' then OP_MULTIPLY else OP_DIVIDE)
               (Some left) (Some right)) pos1 node pos'" .
    from True consider "operatorAt tokens pos ''*''" | "operatorAt tokens pos ''/''"
      by (auto simp: isOperatorToken_operatorAt)
    then show ?thesis
    proof cases
      case 1
      then have "tvalue (tokens ! pos) = ''*''" by (simp add: operatorAt_def)
      with 1 right tail show ?thesis
        by (auto intro: term_multiply)
    next
      case 2
      then have "tvalue (tokens ! pos) \<noteq> ''*''" by (simp add: operatorAt_def)
      with 2 right tail show ?thesis
        by (auto intro: term_divide)
    qed
  qed
next
  case (5 fuel tokens pos)
  from "5.prems" obtain left pos1 where u: "parseUnary fuel tokens pos = Return (left, pos1)"
    by (subst (asm) parsePower.simps) (auto split: outcome.splits prod.splits)
  from "5.IH"(1) [OF u] have left: "derivesUnary tokens pos left pos1" .
  show ?case
  proof (cases "isOperatorToken tokens pos1 [''^'']")
    case False
    with "5.prems" u have "node = left" "pos' = pos1"
      by (subst (asm) parsePower.simps, simp)+
    with left show ?thesis
      by (auto intro: power_unary)
  next
    case True
    with "5.prems" u obtain fuel' right where f: "fuel = Suc fuel'"
      and r: "parsePower fuel' tokens (pos1 + 1) = Return (right, pos')"
      and n: "node = NODE_OPERATOR OP_POWER (Some left) (Some right)"
      by (subst (asm) parsePower.simps) (auto split: nat.splits outcome.splits prod.splits)
    from "5.IH"(2) [OF u refl True f r] have "derivesPower tokens (pos1 + 1) right pos'" .
    moreover from True have "operatorAt tokens pos1 ''^''"
      by (simp add: isOperatorToken_operatorAt)
    ultimately show ?thesis
      using left n by (auto intro: power_power)
  qed
next
  case (6 fuel tokens pos)
  show ?case
  proof (cases "isOperatorToken tokens pos [''-'']")
    case False
    with "6.prems" have "parsePrimary fuel tokens pos = Return (node, pos')"
      by (subst (asm) parseUnary.simps) simp
    with "6.IH"(2) [OF False] show ?thesis
      by (auto intro: unary_primary)
  next
    case True
    with "6.prems" obtain fuel' operand where f: "fuel = Suc fuel'"
      and r: "parseUnary fuel' tokens (pos + 1) = Return (operand, pos')"
      and n: "node = NODE_OPERATOR OP_NEGATE (Some operand) None"
      by (subst (asm) parseUnary.simps) (auto split: nat.splits outcome.splits prod.splits)
    from "6.IH"(1) [OF True f r] have "derivesUnary tokens (pos + 1) operand pos'" .
    moreover from True have "operatorAt tokens pos ''-''"
      by (simp add: isOperatorToken_operatorAt)
    ultimately show ?thesis
      using n by (auto intro: unary_negate)
  qed
next
  case (7 fuel tokens pos)
  have inside: "pos < length tokens"
    using "7.prems" by (subst (asm) parsePrimary.simps) (auto split: if_splits)
  show ?case
  proof (cases "ttype (tokens ! pos)")
    case TOKEN_NUMBER
    with "7.prems" inside show ?thesis
      by (subst (asm) parsePrimary.simps) (auto simp: tokenAt_def intro: primary_Suc(1))
  next
    case TOKEN_VARIABLE
    with "7.prems" inside show ?thesis
      by (subst (asm) parsePrimary.simps) (auto simp: tokenAt_def intro: primary_Suc(2))
  next
    case TOKEN_FUNCTION
    with "7.prems" inside obtain fuel' argument pos1 kind where
      lp: "\<not> notTokenAt tokens (pos + 1) TOKEN_LEFT_PAREN" and f: "fuel = Suc fuel'"
      and a: "parseExpression fuel' tokens (pos + 2) = Return (argument, pos1)"
      and rp: "\<not> notTokenAt tokens pos1 TOKEN_RIGHT_PAREN"
      and k: "functionTypeOf (tvalue (tokens ! pos)) = Some kind"
      and n: "node = NODE_FUNCTION kind (Some argument)" "pos' = pos1 + 1"
      by (subst (asm) parsePrimary.simps)
         (auto split: if_splits nat.splits outcome.splits prod.splits option.splits)
    have "derivesExpression tokens (pos + 2) argument pos1"
      using "7.IH"(1) [OF _ _ _ _ lp f a] inside TOKEN_FUNCTION by simp
    with lp rp k inside TOKEN_FUNCTION show ?thesis
      unfolding n
      by (intro primary_function)
         (simp_all add: notTokenAt_tokenAt functionTypeOf_functionKinds tokenAt_def)
  next
    case TOKEN_LEFT_PAREN
    with "7.prems" inside obtain fuel' pos1 where f: "fuel = Suc fuel'"
      and a: "parseExpression fuel' tokens (pos + 1) = Return (node, pos1)"
      and rp: "\<not> notTokenAt tokens pos1 TOKEN_RIGHT_PAREN"
      and n: "pos' = pos1 + 1"
      by (subst (asm) parsePrimary.simps)
         (auto split: if_splits nat.splits outcome.splits prod.splits option.splits)
    have "derivesExpression tokens (pos + 1) node pos1"
      using "7.IH"(2) [OF _ _ _ _ _ f a] inside TOKEN_LEFT_PAREN by simp
    with rp inside TOKEN_LEFT_PAREN show ?thesis
      unfolding n
      by (intro primary_parentheses) (simp_all add: notTokenAt_tokenAt tokenAt_def)
  next
    case TOKEN_OPERATOR
    with "7.prems" inside show ?thesis
      by (subst (asm) parsePrimary.simps) simp
  next
    case TOKEN_RIGHT_PAREN
    with "7.prems" inside show ?thesis
      by (subst (asm) parsePrimary.simps) simp
  next
    case TOKEN_COMMA
    with "7.prems" inside show ?thesis
      by (subst (asm) parsePrimary.simps) simp
  next
    case TOKEN_END
    with "7.prems" inside show ?thesis
      by (subst (asm) parsePrimary.simps) simp
  qed
qed

subsection \<open>Completeness: the parser finds the derivation\<close>

text \<open>
  The parser decides by the next token whether a repetition or a power goes on, so it
  returns a derivation when the token after it is not an operator that would extend it.
\<close>

lemma primary_not_operator:
  "derivesPrimary tokens pos t pos' \<Longrightarrow> \<not> isOperatorToken tokens pos ops"
  by (erule derivesPrimary.cases) (auto simp: tokenAt_def isOperatorToken_def)

lemma parser_complete:
  "derivesExpression tokens pos t pos' \<Longrightarrow>
     (\<forall>fuel. length tokens - pos \<le> fuel \<longrightarrow> \<not> isOperatorToken tokens pos' [''^'']
        \<longrightarrow> \<not> isOperatorToken tokens pos' [''*'', ''/'']
        \<longrightarrow> \<not> isOperatorToken tokens pos' [''+'', ''-'']
        \<longrightarrow> parseExpression fuel tokens pos = Return (t, pos'))"
  "derivesExpressionTail tokens left pos t pos' \<Longrightarrow>
     (\<forall>fuel. length tokens - pos \<le> fuel \<longrightarrow> \<not> isOperatorToken tokens pos' [''^'']
        \<longrightarrow> \<not> isOperatorToken tokens pos' [''*'', ''/'']
        \<longrightarrow> \<not> isOperatorToken tokens pos' [''+'', ''-'']
        \<longrightarrow> parseExpressionLoop fuel tokens pos left = Return (t, pos'))"
  "derivesTerm tokens pos t pos' \<Longrightarrow>
     (\<forall>fuel. length tokens - pos \<le> fuel \<longrightarrow> \<not> isOperatorToken tokens pos' [''^'']
        \<longrightarrow> \<not> isOperatorToken tokens pos' [''*'', ''/'']
        \<longrightarrow> parseTerm fuel tokens pos = Return (t, pos'))"
  "derivesTermTail tokens left pos t pos' \<Longrightarrow>
     (\<forall>fuel. length tokens - pos \<le> fuel \<longrightarrow> \<not> isOperatorToken tokens pos' [''^'']
        \<longrightarrow> \<not> isOperatorToken tokens pos' [''*'', ''/'']
        \<longrightarrow> parseTermLoop fuel tokens pos left = Return (t, pos'))"
  "derivesPower tokens pos t pos' \<Longrightarrow>
     (\<forall>fuel. length tokens - pos \<le> fuel \<longrightarrow> \<not> isOperatorToken tokens pos' [''^'']
        \<longrightarrow> parsePower fuel tokens pos = Return (t, pos'))"
  "derivesUnary tokens pos t pos' \<Longrightarrow>
     (\<forall>fuel. length tokens - pos \<le> fuel \<longrightarrow> parseUnary fuel tokens pos = Return (t, pos'))"
  "derivesPrimary tokens pos t pos' \<Longrightarrow>
     (\<forall>fuel. length tokens - pos \<le> fuel \<longrightarrow> parsePrimary fuel tokens pos = Return (t, pos'))"
proof (induction rule: derives_inducts)
  case (expression_term tokens pos left pos1 t pos')
  show ?case
  proof (intro allI impI)
    fix fuel
    assume fuel: "length tokens - pos \<le> fuel"
      and la: "\<not> isOperatorToken tokens pos' [''^'']" "\<not> isOperatorToken tokens pos' [''*'', ''/'']"
        "\<not> isOperatorToken tokens pos' [''+'', ''-'']"
    from derives_positions(2) [OF expression_term.hyps(2)]
    have "pos1 = pos' \<or> isOperatorToken tokens pos1 [''+'', ''-'']" by blast
    then have la1: "\<not> isOperatorToken tokens pos1 [''^'']" "\<not> isOperatorToken tokens pos1 [''*'', ''/'']"
      using la by (auto simp: isOperatorToken_def)
    from derives_positions(3) [OF expression_term.hyps(1)] have "pos < pos1" by simp
    with fuel have fuel1: "length tokens - pos1 \<le> fuel" by simp
    have "parseTerm fuel tokens pos = Return (left, pos1)"
      using expression_term.IH(1) fuel la1 by blast
    moreover have "parseExpressionLoop fuel tokens pos1 left = Return (t, pos')"
      using expression_term.IH(2) fuel1 la by blast
    ultimately show "parseExpression fuel tokens pos = Return (t, pos')"
      by (subst parseExpression.simps) simp
  qed
next
  case (expression_end tokens left pos)
  then show ?case by (subst parseExpressionLoop.simps) simp
next
  case (expression_add tokens pos right pos1 left t pos')
  show ?case
  proof (intro allI impI)
    fix fuel
    assume fuel: "length tokens - pos \<le> fuel"
      and la: "\<not> isOperatorToken tokens pos' [''^'']" "\<not> isOperatorToken tokens pos' [''*'', ''/'']"
        "\<not> isOperatorToken tokens pos' [''+'', ''-'']"
    from expression_add.hyps(1) have op: "isOperatorToken tokens pos [''+'', ''-'']"
      "pos < length tokens" "tvalue (tokens ! pos) = ''+''"
      by (auto simp: operatorAt_def tokenAt_def isOperatorToken_def)
    from fuel op(2) obtain fuel' where f: "fuel = Suc fuel'" "length tokens - (pos + 1) \<le> fuel'"
      by (cases fuel) auto
    from derives_positions(2) [OF expression_add.hyps(3)]
    have "pos1 = pos' \<or> isOperatorToken tokens pos1 [''+'', ''-'']" by blast
    then have la1: "\<not> isOperatorToken tokens pos1 [''^'']" "\<not> isOperatorToken tokens pos1 [''*'', ''/'']"
      using la by (auto simp: isOperatorToken_def)
    from derives_positions(3) [OF expression_add.hyps(2)] have "pos + 1 < pos1" by simp
    with f(2) have fuel1: "length tokens - pos1 \<le> fuel'" by simp
    have inner: "parseTerm fuel' tokens (pos + 1) = Return (right, pos1)"
      using expression_add.IH(1) f(2) la1 by auto
    have rest: "parseExpressionLoop fuel' tokens pos1 (NODE_OPERATOR OP_ADD (Some left) (Some right)) = Return (t, pos')"
      using expression_add.IH(2) fuel1 la by blast
    show "parseExpressionLoop fuel tokens pos left = Return (t, pos')"
      using op inner rest unfolding f(1)
      by (subst parseExpressionLoop.simps) simp
  qed
next
  case (expression_subtract tokens pos right pos1 left t pos')
  show ?case
  proof (intro allI impI)
    fix fuel
    assume fuel: "length tokens - pos \<le> fuel"
      and la: "\<not> isOperatorToken tokens pos' [''^'']" "\<not> isOperatorToken tokens pos' [''*'', ''/'']"
        "\<not> isOperatorToken tokens pos' [''+'', ''-'']"
    from expression_subtract.hyps(1) have op: "isOperatorToken tokens pos [''+'', ''-'']"
      "pos < length tokens" "tvalue (tokens ! pos) = ''-''"
      by (auto simp: operatorAt_def tokenAt_def isOperatorToken_def)
    from fuel op(2) obtain fuel' where f: "fuel = Suc fuel'" "length tokens - (pos + 1) \<le> fuel'"
      by (cases fuel) auto
    from derives_positions(2) [OF expression_subtract.hyps(3)]
    have "pos1 = pos' \<or> isOperatorToken tokens pos1 [''+'', ''-'']" by blast
    then have la1: "\<not> isOperatorToken tokens pos1 [''^'']" "\<not> isOperatorToken tokens pos1 [''*'', ''/'']"
      using la by (auto simp: isOperatorToken_def)
    from derives_positions(3) [OF expression_subtract.hyps(2)] have "pos + 1 < pos1" by simp
    with f(2) have fuel1: "length tokens - pos1 \<le> fuel'" by simp
    have inner: "parseTerm fuel' tokens (pos + 1) = Return (right, pos1)"
      using expression_subtract.IH(1) f(2) la1 by auto
    have rest: "parseExpressionLoop fuel' tokens pos1 (NODE_OPERATOR OP_SUBTRACT (Some left) (Some right)) = Return (t, pos')"
      using expression_subtract.IH(2) fuel1 la by blast
    show "parseExpressionLoop fuel tokens pos left = Return (t, pos')"
      using op inner rest unfolding f(1)
      by (subst parseExpressionLoop.simps) simp
  qed
next
  case (term_power tokens pos left pos1 t pos')
  show ?case
  proof (intro allI impI)
    fix fuel
    assume fuel: "length tokens - pos \<le> fuel"
      and la: "\<not> isOperatorToken tokens pos' [''^'']" "\<not> isOperatorToken tokens pos' [''*'', ''/'']"
    from derives_positions(4) [OF term_power.hyps(2)]
    have "pos1 = pos' \<or> isOperatorToken tokens pos1 [''*'', ''/'']" by blast
    then have la1: "\<not> isOperatorToken tokens pos1 [''^'']"
      using la by (auto simp: isOperatorToken_def)
    from derives_positions(5) [OF term_power.hyps(1)] have "pos < pos1" by simp
    with fuel have fuel1: "length tokens - pos1 \<le> fuel" by simp
    have "parsePower fuel tokens pos = Return (left, pos1)"
      using term_power.IH(1) fuel la1 by blast
    moreover have "parseTermLoop fuel tokens pos1 left = Return (t, pos')"
      using term_power.IH(2) fuel1 la by blast
    ultimately show "parseTerm fuel tokens pos = Return (t, pos')"
      by (subst parseTerm.simps) simp
  qed
next
  case (term_end tokens left pos)
  then show ?case by (subst parseTermLoop.simps) simp
next
  case (term_multiply tokens pos right pos1 left t pos')
  show ?case
  proof (intro allI impI)
    fix fuel
    assume fuel: "length tokens - pos \<le> fuel"
      and la: "\<not> isOperatorToken tokens pos' [''^'']" "\<not> isOperatorToken tokens pos' [''*'', ''/'']"
    from term_multiply.hyps(1) have op: "isOperatorToken tokens pos [''*'', ''/'']"
      "pos < length tokens" "tvalue (tokens ! pos) = ''*''"
      by (auto simp: operatorAt_def tokenAt_def isOperatorToken_def)
    from fuel op(2) obtain fuel' where f: "fuel = Suc fuel'" "length tokens - (pos + 1) \<le> fuel'"
      by (cases fuel) auto
    from derives_positions(4) [OF term_multiply.hyps(3)]
    have "pos1 = pos' \<or> isOperatorToken tokens pos1 [''*'', ''/'']" by blast
    then have la1: "\<not> isOperatorToken tokens pos1 [''^'']"
      using la by (auto simp: isOperatorToken_def)
    from derives_positions(5) [OF term_multiply.hyps(2)] have "pos + 1 < pos1" by simp
    with f(2) have fuel1: "length tokens - pos1 \<le> fuel'" by simp
    have inner: "parsePower fuel' tokens (pos + 1) = Return (right, pos1)"
      using term_multiply.IH(1) f(2) la1 by auto
    have rest: "parseTermLoop fuel' tokens pos1 (NODE_OPERATOR OP_MULTIPLY (Some left) (Some right)) = Return (t, pos')"
      using term_multiply.IH(2) fuel1 la by blast
    show "parseTermLoop fuel tokens pos left = Return (t, pos')"
      using op inner rest unfolding f(1)
      by (subst parseTermLoop.simps) simp
  qed
next
  case (term_divide tokens pos right pos1 left t pos')
  show ?case
  proof (intro allI impI)
    fix fuel
    assume fuel: "length tokens - pos \<le> fuel"
      and la: "\<not> isOperatorToken tokens pos' [''^'']" "\<not> isOperatorToken tokens pos' [''*'', ''/'']"
    from term_divide.hyps(1) have op: "isOperatorToken tokens pos [''*'', ''/'']"
      "pos < length tokens" "tvalue (tokens ! pos) = ''/''"
      by (auto simp: operatorAt_def tokenAt_def isOperatorToken_def)
    from fuel op(2) obtain fuel' where f: "fuel = Suc fuel'" "length tokens - (pos + 1) \<le> fuel'"
      by (cases fuel) auto
    from derives_positions(4) [OF term_divide.hyps(3)]
    have "pos1 = pos' \<or> isOperatorToken tokens pos1 [''*'', ''/'']" by blast
    then have la1: "\<not> isOperatorToken tokens pos1 [''^'']"
      using la by (auto simp: isOperatorToken_def)
    from derives_positions(5) [OF term_divide.hyps(2)] have "pos + 1 < pos1" by simp
    with f(2) have fuel1: "length tokens - pos1 \<le> fuel'" by simp
    have inner: "parsePower fuel' tokens (pos + 1) = Return (right, pos1)"
      using term_divide.IH(1) f(2) la1 by auto
    have rest: "parseTermLoop fuel' tokens pos1 (NODE_OPERATOR OP_DIVIDE (Some left) (Some right)) = Return (t, pos')"
      using term_divide.IH(2) fuel1 la by blast
    show "parseTermLoop fuel tokens pos left = Return (t, pos')"
      using op inner rest unfolding f(1)
      by (subst parseTermLoop.simps) simp
  qed
next
  case (power_unary tokens pos t pos')
  show ?case
  proof (intro allI impI)
    fix fuel
    assume fuel: "length tokens - pos \<le> fuel"
      and la: "\<not> isOperatorToken tokens pos' [''^'']"
    have "parseUnary fuel tokens pos = Return (t, pos')"
      using power_unary.IH fuel by blast
    with la show "parsePower fuel tokens pos = Return (t, pos')"
      by (subst parsePower.simps) simp
  qed
next
  case (power_power tokens pos left pos1 right pos')
  show ?case
  proof (intro allI impI)
    fix fuel
    assume fuel: "length tokens - pos \<le> fuel"
      and la: "\<not> isOperatorToken tokens pos' [''^'']"
    from power_power.hyps(2) have op: "isOperatorToken tokens pos1 [''^'']" "pos1 < length tokens"
      by (auto simp: operatorAt_def tokenAt_def isOperatorToken_def)
    from derives_positions(6) [OF power_power.hyps(1)] have "pos < pos1" by simp
    with fuel op(2) obtain fuel' where f: "fuel = Suc fuel'" "length tokens - (pos1 + 1) \<le> fuel'"
      by (cases fuel) auto
    have left: "parseUnary fuel tokens pos = Return (left, pos1)"
      using power_power.IH(1) fuel by blast
    have right: "parsePower fuel' tokens (pos1 + 1) = Return (right, pos')"
      using power_power.IH(2) f(2) la by blast
    show "parsePower fuel tokens pos
            = Return (NODE_OPERATOR OP_POWER (Some left) (Some right), pos')"
      using left right op unfolding f(1)
      by (subst parsePower.simps) simp
  qed
next
  case (unary_negate tokens pos operand pos')
  show ?case
  proof (intro allI impI)
    fix fuel
    assume fuel: "length tokens - pos \<le> fuel"
    from unary_negate.hyps(1) have op: "isOperatorToken tokens pos [''-'']" "pos < length tokens"
      by (auto simp: operatorAt_def tokenAt_def isOperatorToken_def)
    from fuel op(2) obtain fuel' where f: "fuel = Suc fuel'" "length tokens - (pos + 1) \<le> fuel'"
      by (cases fuel) auto
    have "parseUnary fuel' tokens (pos + 1) = Return (operand, pos')"
      using unary_negate.IH f(2) by blast
    with op show "parseUnary fuel tokens pos
            = Return (NODE_OPERATOR OP_NEGATE (Some operand) None, pos')"
      unfolding f(1) by (subst parseUnary.simps) simp
  qed
next
  case (unary_primary tokens pos t pos')
  then show ?case
    by (subst parseUnary.simps) (simp add: primary_not_operator)
next
  case (primary_number tokens pos)
  then show ?case by (subst parsePrimary.simps) (simp add: tokenAt_def)
next
  case (primary_variable tokens pos)
  then show ?case by (subst parsePrimary.simps) (simp add: tokenAt_def)
next
  case (primary_function tokens pos argument pos1 kind)
  show ?case
  proof (intro allI impI)
    fix fuel
    assume fuel: "length tokens - pos \<le> fuel"
    from primary_function.hyps(1,2,4) have tok: "pos < length tokens"
      "ttype (tokens ! pos) = TOKEN_FUNCTION" "\<not> notTokenAt tokens (pos + 1) TOKEN_LEFT_PAREN"
      "\<not> notTokenAt tokens pos1 TOKEN_RIGHT_PAREN"
      by (auto simp: tokenAt_def notTokenAt_def)
    from fuel tok(1) obtain fuel' where f: "fuel = Suc fuel'" "length tokens - (pos + 2) \<le> fuel'"
      by (cases fuel) auto
    from primary_function.hyps(4) have la: "\<not> isOperatorToken tokens pos1 [''^'']"
      "\<not> isOperatorToken tokens pos1 [''*'', ''/'']" "\<not> isOperatorToken tokens pos1 [''+'', ''-'']"
      by (auto simp: tokenAt_def isOperatorToken_def)
    have "parseExpression fuel' tokens (pos + 2) = Return (argument, pos1)"
      using primary_function.IH f(2) la by blast
    with tok primary_function.hyps(5)
    show "parsePrimary fuel tokens pos = Return (NODE_FUNCTION kind (Some argument), pos1 + 1)"
      unfolding f(1) by (subst parsePrimary.simps) (simp add: functionTypeOf_functionKinds)
  qed
next
  case (primary_parentheses tokens pos t pos1)
  show ?case
  proof (intro allI impI)
    fix fuel
    assume fuel: "length tokens - pos \<le> fuel"
    from primary_parentheses.hyps(1,3) have tok: "pos < length tokens"
      "ttype (tokens ! pos) = TOKEN_LEFT_PAREN" "\<not> notTokenAt tokens pos1 TOKEN_RIGHT_PAREN"
      by (auto simp: tokenAt_def notTokenAt_def)
    from fuel tok(1) obtain fuel' where f: "fuel = Suc fuel'" "length tokens - (pos + 1) \<le> fuel'"
      by (cases fuel) auto
    from primary_parentheses.hyps(3) have la: "\<not> isOperatorToken tokens pos1 [''^'']"
      "\<not> isOperatorToken tokens pos1 [''*'', ''/'']" "\<not> isOperatorToken tokens pos1 [''+'', ''-'']"
      by (auto simp: tokenAt_def isOperatorToken_def)
    have "parseExpression fuel' tokens (pos + 1) = Return (t, pos1)"
      using primary_parentheses.IH f(2) la by blast
    with tok
    show "parsePrimary fuel tokens pos = Return (t, pos1 + 1)"
      unfolding f(1) by (subst parsePrimary.simps) simp
  qed
qed

subsection \<open>The whole expression\<close>

lemma tokenizeFrom_end:
  "tokenizeFrom i cs acc = Inr tokens \<Longrightarrow> tokens \<noteq> [] \<and> ttype (last tokens) = TOKEN_END"
  by (induction i cs acc rule: tokenizeFrom.induct)
     (auto simp: Let_def mkToken_def split: if_splits)

lemma tokenize_end:
  "tokenize expression = Inr tokens \<Longrightarrow> tokens \<noteq> [] \<and> ttype (last tokens) = TOKEN_END"
  unfolding tokenize_def by (rule tokenizeFrom_end)

lemma derives_last:
  "derivesExpression tokens pos t pos' \<Longrightarrow> ttype (tokens ! (pos' - 1)) \<noteq> TOKEN_END"
  "derivesExpressionTail tokens left pos t pos' \<Longrightarrow> pos = pos' \<or> ttype (tokens ! (pos' - 1)) \<noteq> TOKEN_END"
  "derivesTerm tokens pos t pos' \<Longrightarrow> ttype (tokens ! (pos' - 1)) \<noteq> TOKEN_END"
  "derivesTermTail tokens left pos t pos' \<Longrightarrow> pos = pos' \<or> ttype (tokens ! (pos' - 1)) \<noteq> TOKEN_END"
  "derivesPower tokens pos t pos' \<Longrightarrow> ttype (tokens ! (pos' - 1)) \<noteq> TOKEN_END"
  "derivesUnary tokens pos t pos' \<Longrightarrow> ttype (tokens ! (pos' - 1)) \<noteq> TOKEN_END"
  "derivesPrimary tokens pos t pos' \<Longrightarrow> ttype (tokens ! (pos' - 1)) \<noteq> TOKEN_END"
  by (induction rule: derives_inducts) (auto simp: tokenAt_def)

lemma derives_before_end:
  assumes "derivesExpression tokens pos t pos'" and "tokens \<noteq> []" and "ttype (last tokens) = TOKEN_END"
  shows "pos' < length tokens"
proof -
  from derives_positions(1) [OF assms(1)] have "pos' \<le> length tokens" by simp
  moreover have "pos' \<noteq> length tokens"
    using derives_last(1) [OF assms(1)] assms(2,3) by (auto simp: last_conv_nth)
  ultimately show ?thesis by simp
qed

lemma end_no_operator:
  "tokenAt tokens pos TOKEN_END \<Longrightarrow> \<not> isOperatorToken tokens pos ops"
  by (simp add: tokenAt_def isOperatorToken_def)

lemma parse_accepts_iff:
  assumes tok: "tokenize expression = Inr tokens"
  shows "(parse expression p0 = Some (True, p)) =
           (\<exists>t pos. derivesExpression tokens 0 t pos \<and> tokenAt tokens pos TOKEN_END \<and>
                    p = \<lparr>rootNode = Some t, errorMessage = None\<rparr>)"
proof (cases "trimmed expression = []")
  case True
  with tok have "tokens = [mkToken TOKEN_END [] (Finite 0)]"
    by (simp add: tokenize_def)
  then have "\<not> derivesExpression tokens 0 t pos" for t pos
    using derives_positions(1) [of tokens 0 t pos] derives_last(1) [of tokens 0 t pos]
    by (cases pos) (auto simp: mkToken_def)
  moreover have "parse expression p0 \<noteq> Some (True, p)"
    using True by (simp add: parse_def)
  ultimately show ?thesis by blast
next
  case False
  note e = tokenize_end [OF tok]
  show ?thesis
  proof
    assume ok: "parse expression p0 = Some (True, p)"
    then obtain t pos where r: "parseExpression (length tokens) tokens 0 = Return (t, pos)"
      and rest: "\<not> (pos < length tokens \<and> ttype (tokens ! pos) \<noteq> TOKEN_END)"
      and p: "p = \<lparr>rootNode = Some t, errorMessage = None\<rparr>"
      using False tok
      by (auto simp: parse_def Let_def split: outcome.splits prod.splits if_splits)
    have d: "derivesExpression tokens 0 t pos" using r by (rule parser_sound(1))
    from derives_before_end [OF d] e have "pos < length tokens" by simp
    with rest have "tokenAt tokens pos TOKEN_END" by (simp add: tokenAt_def)
    with d p show "\<exists>t pos. derivesExpression tokens 0 t pos \<and> tokenAt tokens pos TOKEN_END \<and>
                    p = \<lparr>rootNode = Some t, errorMessage = None\<rparr>" by blast
  next
    assume "\<exists>t pos. derivesExpression tokens 0 t pos \<and> tokenAt tokens pos TOKEN_END \<and>
                    p = \<lparr>rootNode = Some t, errorMessage = None\<rparr>"
    then obtain t pos where d: "derivesExpression tokens 0 t pos"
      and en: "tokenAt tokens pos TOKEN_END" and p: "p = \<lparr>rootNode = Some t, errorMessage = None\<rparr>"
      by blast
    have "parseExpression (length tokens) tokens 0 = Return (t, pos)"
      using parser_complete(1) [OF d] end_no_operator [OF en] by simp
    with en False tok p show "parse expression p0 = Some (True, p)"
      by (simp add: parse_def Let_def tokenAt_def)
  qed
qed

lemma parse_rejects_iff:
  assumes tok: "tokenize expression = Inr tokens"
  shows "(\<exists>p. parse expression p0 = Some (False, p)) =
           (\<not> (\<exists>t pos. derivesExpression tokens 0 t pos \<and> tokenAt tokens pos TOKEN_END))"
proof -
  obtain b p where r: "parse expression p0 = Some (b, p)"
    using parse_returns [of expression p0] by auto
  show ?thesis
  proof (cases b)
    case True
    with r parse_accepts_iff [OF tok, of p0 p] show ?thesis by auto
  next
    case False
    have "\<not> derivesExpression tokens 0 t pos \<or> \<not> tokenAt tokens pos TOKEN_END" for t pos
    proof -
      have "parse expression p0 \<noteq> Some (True, \<lparr>rootNode = Some t, errorMessage = None\<rparr>)"
        using r False by simp
      with parse_accepts_iff [OF tok, of p0 "\<lparr>rootNode = Some t, errorMessage = None\<rparr>"]
      show ?thesis by blast
    qed
    with r False show ?thesis by auto
  qed
qed

text \<open>
  C5. The parser implements the grammar of five precedence levels, with addition and
  subtraction, and multiplication and division, left-associative and exponentiation
  right-associative: for every expression that the tokenizer accepts, \<open>parse\<close> succeeds
  with a tree exactly when the tokens up to the end marker are an expression of the
  grammar with that tree, and fails exactly when they are not an expression of the
  grammar. Parsing and then evaluating "2+3*4" yields 14, "(2+3)*4" yields 20, "10-3-2"
  yields 5 and "2^3^2" yields 512.
\<close>

theorem parser_implements_grammar:
  assumes "tokenize expression = Inr tokens"
  shows "(parse expression p0 = Some (True, p)) =
           (\<exists>t pos. derivesExpression tokens 0 t pos \<and> tokenAt tokens pos TOKEN_END \<and>
                    p = \<lparr>rootNode = Some t, errorMessage = None\<rparr>) \<and>
         (\<exists>p'. parse expression p0 = Some (False, p')) =
           (\<not> (\<exists>t pos. derivesExpression tokens 0 t pos \<and> tokenAt tokens pos TOKEN_END)) \<and>
         parseAndEvaluate ''2+3*4'' Map.empty = Some (True, Some (Finite 14)) \<and>
         parseAndEvaluate ''(2+3)*4'' Map.empty = Some (True, Some (Finite 20)) \<and>
         parseAndEvaluate ''10-3-2'' Map.empty = Some (True, Some (Finite 5)) \<and>
         parseAndEvaluate ''2^3^2'' Map.empty = Some (True, Some (Finite 512))"
proof (intro conjI)
  show "(parse expression p0 = Some (True, p)) =
           (\<exists>t pos. derivesExpression tokens 0 t pos \<and> tokenAt tokens pos TOKEN_END \<and>
                    p = \<lparr>rootNode = Some t, errorMessage = None\<rparr>)"
    using assms by (rule parse_accepts_iff)
  show "(\<exists>p'. parse expression p0 = Some (False, p')) =
           (\<not> (\<exists>t pos. derivesExpression tokens 0 t pos \<and> tokenAt tokens pos TOKEN_END))"
    using assms by (rule parse_rejects_iff)
  show "parseAndEvaluate ''2+3*4'' Map.empty = Some (True, Some (Finite 14))"
    by (simp add: engine_simps lexer_simps parser_simps)
  show "parseAndEvaluate ''(2+3)*4'' Map.empty = Some (True, Some (Finite 20))"
    by (simp add: engine_simps lexer_simps parser_simps)
  show "parseAndEvaluate ''10-3-2'' Map.empty = Some (True, Some (Finite 5))"
    by (simp add: engine_simps lexer_simps parser_simps)
  show "parseAndEvaluate ''2^3^2'' Map.empty = Some (True, Some (Finite 512))"
    by (simp add: engine_simps lexer_simps parser_simps)
qed

text \<open>
  "-2*3^2 - abs(x)" is parsed to the tree of the grammar; "2*(3", which lacks a
  parenthesis, is rejected and is not an expression of the grammar.
\<close>

theorem parser_implements_grammar_witness:
  "tokenize ''-2*3^2 - abs(x)'' = Inr exampleTokens \<and>
   parse ''-2*3^2 - abs(x)'' newParser = Some (True, \<lparr>rootNode = Some exampleTree, errorMessage = None\<rparr>) \<and>
   (\<exists>pos. derivesExpression exampleTokens 0 exampleTree pos \<and> tokenAt exampleTokens pos TOKEN_END) \<and>
   (\<exists>p. parse ''2*(3'' newParser = Some (False, p)) \<and>
   (\<exists>tokens. tokenize ''2*(3'' = Inr tokens \<and>
      \<not> (\<exists>t pos. derivesExpression tokens 0 t pos \<and> tokenAt tokens pos TOKEN_END))"
proof -
  have tok: "tokenize ''-2*3^2 - abs(x)'' = Inr exampleTokens"
    by (simp add: lexer_simps exampleTokens_def)
  have ok: "parse ''-2*3^2 - abs(x)'' newParser
              = Some (True, \<lparr>rootNode = Some exampleTree, errorMessage = None\<rparr>)"
    by (simp add: parse_def newParser_def lexer_simps parser_simps exampleTree_def)
  obtain tokens where tok': "tokenize ''2*(3'' = Inr tokens"
    by (simp add: lexer_simps)
  have bad: "\<exists>p. parse ''2*(3'' newParser = Some (False, p)"
    by (simp add: parse_def newParser_def lexer_simps parser_simps)
  from parser_implements_grammar [OF tok, of newParser "\<lparr>rootNode = Some exampleTree, errorMessage = None\<rparr>"]
    parser_implements_grammar [OF tok', of newParser] tok ok tok' bad
  show ?thesis by auto
qed

text \<open>
  C2. The claim that a failed \<open>parse\<close> leaves no tree behind does not hold for the
  failure on a token left over: \<open>parse\<close> has stored the tree of the expression before
  that token when it reports the failure, and a following \<open>evaluate\<close> succeeds. On
  "1 2", \<open>parse\<close> returns false with the message about the token at position 1, the
  parser keeps the tree of "1", and \<open>evaluate\<close> yields 1.
\<close>

theorem parse_trailing_token_keeps_tree:
  "parse ''1 2'' newParser =
     Some (False, \<lparr>rootNode = Some (NODE_NUMBER (Finite 1)),
                   errorMessage = Some (UnexpectedTokenAt 1 ''2'')\<rparr>) \<and>
   parseAndEvaluate ''1 2'' Map.empty = Some (False, Some (Finite 1))"
  by (simp add: engine_simps lexer_simps parser_simps)

section \<open>Properties of the trace computer\<close>

subsection \<open>The timestamp union\<close>

lemma set_set_insert: "set (set_insert x xs) = insert x (set xs)"
  by (induction xs) auto

lemma sorted_set_insert: "sorted_wrt (<) xs \<Longrightarrow> sorted_wrt (<) (set_insert x xs)"
  by (induction xs) (auto simp: set_set_insert)

lemma fold_set_insert:
  "set (fold (\<lambda>i acc. set_insert (f i) acc) is acc) = f ` set is \<union> set acc"
  by (induction "is" arbitrary: acc) (auto simp: set_set_insert)

lemma sorted_fold_set_insert:
  "sorted_wrt (<) acc \<Longrightarrow> sorted_wrt (<) (fold (\<lambda>i acc. set_insert (f i) acc) is acc)"
  by (induction "is" arbitrary: acc) (auto simp: sorted_set_insert)

lemma getTimestamp_image: "getTimestamp s ` {0..<length s} = fst ` set s"
proof -
  have "map fst s = map fst (map ((!) s) [0..<length s])"
    by (simp only: map_nth)
  also have "\<dots> = map (getTimestamp s) [0..<length s]"
    unfolding map_map by (rule map_cong) (simp_all add: getTimestamp_def)
  finally have "map (getTimestamp s) [0..<length s] = map fst s"
    by simp
  then have "set (map (getTimestamp s) [0..<length s]) = set (map fst s)"
    by simp
  then show ?thesis
    by simp
qed

lemma set_insertTimestamps: "set (insertTimestamps s acc) = fst ` set s \<union> set acc"
  by (simp add: insertTimestamps_def fold_set_insert getTimestamp_image)

lemma sorted_insertTimestamps:
  "sorted_wrt (<) acc \<Longrightarrow> sorted_wrt (<) (insertTimestamps s acc)"
  by (simp add: insertTimestamps_def sorted_fold_set_insert)

lemma fold_insertTimestamps:
  "set (fold (\<lambda>entry acc. insertTimestamps (snd entry) acc) series acc)
     = allTimestamps series \<union> set acc"
  by (induction series arbitrary: acc) (auto simp: allTimestamps_def set_insertTimestamps)

lemma sorted_fold_insertTimestamps:
  "sorted_wrt (<) acc \<Longrightarrow>
   sorted_wrt (<) (fold (\<lambda>entry acc. insertTimestamps (snd entry) acc) series acc)"
  by (induction series arbitrary: acc) (auto simp: sorted_insertTimestamps)

lemma set_collectTimestamps: "set (collectTimestamps series) = allTimestamps series"
  by (simp add: collectTimestamps_def fold_insertTimestamps)

lemma sorted_collectTimestamps: "sorted_wrt (<) (collectTimestamps series)"
  by (simp add: collectTimestamps_def sorted_fold_insertTimestamps)

lemma collectTimestamps_eq: "collectTimestamps series = sorted_list_of_set (allTimestamps series)"
proof -
  have "sorted (collectTimestamps series)" "distinct (collectTimestamps series)"
    using sorted_collectTimestamps [of series] by (simp_all add: strict_sorted_iff)
  then have "sorted_list_of_set (set (collectTimestamps series)) = collectTimestamps series"
    by (rule sorted_list_of_set.idem_if_sorted_distinct)
  then show ?thesis
    by (simp add: set_collectTimestamps)
qed

lemma allTimestamps_cong: "set series' = set series \<Longrightarrow> allTimestamps series' = allTimestamps series"
  by (simp add: allTimestamps_def)

subsection \<open>The gap check\<close>

lemma isTimestampValid_Cons:
  "isTimestampValid t (entry # rest) g = (seriesCheck t (snd entry) g \<and> isTimestampValid t rest g)"
  by (auto simp: seriesCheck_def Let_def)

lemma isTimestampValid_all:
  "isTimestampValid t series g = (\<forall>entry \<in> set series. seriesCheck t (snd entry) g)"
  by (induction series) (simp_all only: isTimestampValid_Cons isTimestampValid.simps list.set ball_simps)

lemma index_timestamps:
  "getIndexForTimestamp s t = length (takeWhile (\<lambda>x. x < t) (timestampsOf s))"
  by (simp add: getIndexForTimestamp_def timestampsOf_def takeWhile_map comp_def)

lemma takeWhile_less_Nil: "\<forall>x\<in>set xs. t \<le> x \<Longrightarrow> takeWhile (\<lambda>x. x < (t::real)) xs = []"
  by (cases xs) auto

lemma dropWhile_less_id: "\<forall>x\<in>set xs. t \<le> x \<Longrightarrow> dropWhile (\<lambda>x. x < (t::real)) xs = xs"
  by (cases xs) auto

lemma filter_less_sorted:
  "sorted xs \<Longrightarrow> filter (\<lambda>x. x < t) xs = takeWhile (\<lambda>x. x < (t::real)) xs"
proof (induction xs)
  case (Cons a xs)
  show ?case
  proof (cases "a < t")
    case True
    with Cons show ?thesis by simp
  next
    case False
    with Cons.prems have "\<forall>x\<in>set xs. t \<le> x" by fastforce
    with False show ?thesis
      by (simp add: takeWhile_less_Nil filter_empty_conv not_less)
  qed
qed simp

lemma filter_ge_sorted:
  "sorted xs \<Longrightarrow> filter (\<lambda>x. t \<le> x) xs = dropWhile (\<lambda>x. x < (t::real)) xs"
proof (induction xs)
  case (Cons a xs)
  show ?case
  proof (cases "a < t")
    case True
    with Cons show ?thesis by simp
  next
    case False
    with Cons.prems have "\<forall>x\<in>set xs. t \<le> x" by fastforce
    with False show ?thesis
      by (simp add: filter_id_conv)
  qed
qed simp

lemma Max_sorted: "sorted xs \<Longrightarrow> xs \<noteq> [] \<Longrightarrow> Max (set xs) = last (xs :: real list)"
  by (induction xs) (auto simp: max_def Max_insert)

lemma Min_sorted: "sorted xs \<Longrightarrow> xs \<noteq> [] \<Longrightarrow> Min (set xs) = hd (xs :: real list)"
  by (cases xs) (auto intro!: Min_eqI)

lemma seriesCheck_validInSeries:
  assumes "s \<noteq> []" and "sorted (timestampsOf s)"
  shows "seriesCheck t s g = validInSeries t s g"
proof -
  define ts where "ts = timestampsOf s"
  define idx where "idx = length (takeWhile (\<lambda>x. x < t) ts)"
  have ts: "ts \<noteq> []" "sorted ts" "length ts = length s"
    using assms by (simp_all add: ts_def timestampsOf_def)
  have nth: "\<And>i. i < length s \<Longrightarrow> getTimestamp s i = ts ! i"
    by (simp add: getTimestamp_def ts_def timestampsOf_def)
  have idx: "getIndexForTimestamp s t = idx"
    by (simp add: index_timestamps idx_def ts_def)
  have le: "idx \<le> length ts"
    by (simp add: idx_def length_takeWhile_le)
  consider (first) "idx = 0" | (past) "idx = length ts" | (inner) "0 < idx" "idx < length ts"
    using le by linarith
  then show ?thesis
  proof cases
    case first
    then have "takeWhile (\<lambda>x. x < t) ts = []"
      by (simp add: idx_def)
    then have "t \<le> hd ts"
      using ts(1) by (cases ts) (auto split: if_splits)
    moreover have "getTimestamp s 0 = hd ts"
      using ts assms(1) nth [of 0] by (simp add: hd_conv_nth)
    ultimately show ?thesis
      using first ts idx assms(1) by (auto simp add: seriesCheck_def validInSeries_def simp flip: ts_def)
  next
    case past
    then have "takeWhile (\<lambda>x. x < t) ts = take (length ts) ts"
      unfolding idx_def by (metis takeWhile_eq_take)
    then have all: "takeWhile (\<lambda>x. x < t) ts = ts"
      by simp
    have "\<forall>x \<in> set ts. x < t"
      using set_takeWhileD [of _ "\<lambda>x. x < t" ts] unfolding all by blast
    then have "hd ts < t" "last ts < t"
      using ts(1) by simp_all
    moreover have "getTimestamp s (length s - 1) = last ts"
      using ts assms(1) nth [of "length s - 1"] by (simp add: last_conv_nth)
    ultimately show ?thesis
      using past ts idx assms(1) by (auto simp add: seriesCheck_def validInSeries_def simp flip: ts_def)
  next
    case inner
    have tw: "takeWhile (\<lambda>x. x < t) ts = take idx ts"
      unfolding idx_def by (rule takeWhile_eq_take)
    have before: "filter (\<lambda>x. x < t) ts = take idx ts"
      using filter_less_sorted [OF ts(2), of t] tw by simp
    have "dropWhile (\<lambda>x. x < t) ts = drop idx ts"
      unfolding idx_def by (rule dropWhile_eq_drop)
    then have after: "filter (\<lambda>x. t \<le> x) ts = drop idx ts"
      using filter_ge_sorted [OF ts(2), of t] by simp
    have "sampleBefore s t = last (take idx ts)"
      unfolding sampleBefore_def ts_def [symmetric] before
      using inner ts(1,2) by (intro Max_sorted) (simp_all add: sorted_wrt_take)
    moreover have "last (take idx ts) = take idx ts ! (length (take idx ts) - 1)"
      using inner by (intro last_conv_nth) auto
    ultimately have sb: "sampleBefore s t = ts ! (idx - 1)"
      using inner by simp
    have "sampleAfter s t = hd (drop idx ts)"
      unfolding sampleAfter_def ts_def [symmetric] after
      using inner ts(1,2) by (intro Min_sorted) (simp_all add: sorted_wrt_drop)
    then have sa: "sampleAfter s t = ts ! idx"
      using inner by (simp add: hd_drop_conv_nth)
    have "take idx ts \<noteq> []"
      using inner ts(1) by simp
    then have "hd (take idx ts) \<in> set (take idx ts)"
      by (rule hd_in_set)
    then have "hd (take idx ts) < t"
      unfolding tw [symmetric] by (rule set_takeWhileD [THEN conjunct2])
    then have "hd ts < t"
      using inner by simp
    moreover have "\<not> ts ! idx < t"
      using inner(2) unfolding idx_def by (rule nth_length_takeWhile)
    then have "t \<le> ts ! idx"
      by simp
    moreover have "ts ! idx \<le> ts ! (length ts - 1)"
      using ts(2) inner by (intro sorted_nth_mono) simp_all
    then have "ts ! idx \<le> last ts"
      using ts(1) by (simp add: last_conv_nth)
    ultimately show ?thesis
      using inner ts idx nth [of idx] nth [of "idx - 1"] sa sb
      by (auto simp add: seriesCheck_def validInSeries_def simp flip: ts_def)
  qed
qed

subsection \<open>The main loop\<close>

lemma computeLoop_until:
  assumes "i \<le> k" and "k \<le> length ts"
    and "\<forall>j. i \<le> j \<and> j < k \<longrightarrow> \<not> cancelRequested c j"
    and "k < length ts \<longrightarrow> cancelRequested c k"
  shows "\<exists>st'. computeLoop c p vs ts i st = (st', k < length ts) \<and>
           samples (out st') = samples (out st) @ writtenPoints c p vs (take (k - i) (drop i ts)) \<and>
           updates (out st') = updates (out st) \<and>
           validPoints st' =
             validPoints st + int (length (writtenPoints c p vs (take (k - i) (drop i ts)))) \<and>
           validPoints st' + skippedPoints st' = validPoints st + skippedPoints st + int (k - i)"
  using assms
proof (induction "k - i" arbitrary: i st)
  case 0
  then have "i = k" by simp
  with "0.prems" show ?case
    by (subst computeLoop.simps) auto
next
  case (Suc m)
  then have i: "i < length ts" "\<not> cancelRequested c i" "m = k - Suc i" "Suc i \<le> k"
    by auto
  have split: "take (k - i) (drop i ts) = ts ! i # take (k - Suc i) (drop (Suc i) ts)"
    using i Suc.hyps(2) by (metis Cons_nth_drop_Suc take_Suc_Cons)
  have later: "\<forall>j. Suc i \<le> j \<and> j < k \<longrightarrow> \<not> cancelRequested c j"
    using Suc.prems(3) by auto
  note IH = Suc.hyps(1) [OF i(3) i(4) Suc.prems(2) later Suc.prems(4)]
  show ?case
  proof (cases "computePoint c p vs (ts ! i)")
    case None
    from IH [of "st\<lparr>skippedPoints := skippedPoints st + 1\<rparr>"] obtain st' where
      "computeLoop c p vs ts (Suc i) (st\<lparr>skippedPoints := skippedPoints st + 1\<rparr>) = (st', k < length ts)"
      "samples (out st') = samples (out st) @ writtenPoints c p vs (take (k - Suc i) (drop (Suc i) ts))"
      "updates (out st') = updates (out st)"
      "validPoints st' = validPoints st + int (length (writtenPoints c p vs (take (k - Suc i) (drop (Suc i) ts))))"
      "validPoints st' + skippedPoints st' = validPoints st + (skippedPoints st + 1) + int (k - Suc i)"
      by auto
    with None i show ?thesis
      by (subst computeLoop.simps) (auto simp: split)
  next
    case (Some result)
    define st1 where "st1 = st\<lparr>out := addData (ts ! i) result (out st), validPoints := validPoints st + 1\<rparr>"
    define progress where "progress = cdiv (int32 (int i * 100)) (int (length ts))"
    define st2 where "st2 = (if progress \<noteq> lastProgress st1 \<and> cmod progress 10 = 0
      then st1\<lparr>emitted := emitted st1 @ [progressUpdated progress], lastProgress := progress\<rparr> else st1)"
    have step: "computeLoop c p vs ts i st = computeLoop c p vs ts (Suc i) st2"
      using Some i by (subst computeLoop.simps) (simp add: st2_def st1_def progress_def Let_def)
    have st2: "out st2 = addData (ts ! i) result (out st)" "validPoints st2 = validPoints st + 1"
      "skippedPoints st2 = skippedPoints st"
      by (simp_all add: st2_def st1_def)
    from IH [of st2] obtain st' where
      "computeLoop c p vs ts (Suc i) st2 = (st', k < length ts)"
      "samples (out st') = samples (out st2) @ writtenPoints c p vs (take (k - Suc i) (drop (Suc i) ts))"
      "updates (out st') = updates (out st2)"
      "validPoints st' = validPoints st2 + int (length (writtenPoints c p vs (take (k - Suc i) (drop (Suc i) ts))))"
      "validPoints st' + skippedPoints st' = validPoints st2 + skippedPoints st2 + int (k - Suc i)"
      by auto
    with Some i step st2 show ?thesis
      by (auto simp: split addData_def)
  qed
qed

lemma progressValues_append:
  "progressValues (xs @ ys) = progressValues xs @ progressValues ys"
  by (induction xs rule: progressValues.induct) auto

lemma computeLoop_emitted:
  "\<exists>ps. emitted (fst (computeLoop c p vs ts i st)) =
          emitted st @ map progressUpdated ps @
            (if snd (computeLoop c p vs ts i st) then [computationFailed ComputationCancelled] else []) \<and>
        int (length ps) \<le> validPoints (fst (computeLoop c p vs ts i st)) - validPoints st"
proof (induction "length ts - i" arbitrary: i st)
  case 0
  then show ?case
    by (subst (1 2 3) computeLoop.simps) (auto intro: exI [of _ "[]"])
next
  case (Suc m)
  then have i: "i < length ts" "m = length ts - Suc i"
    by auto
  note IH = Suc.hyps(1) [OF i(2)]
  show ?case
  proof (cases "cancelRequested c i")
    case True
    with i show ?thesis
      by (subst (1 2 3) computeLoop.simps) (auto intro: exI [of _ "[]"])
  next
    case False
    show ?thesis
    proof (cases "computePoint c p vs (ts ! i)")
      case None
      with False i IH [of "st\<lparr>skippedPoints := skippedPoints st + 1\<rparr>"] show ?thesis
        by (subst (1 2 3) computeLoop.simps) simp
    next
      case (Some result)
      define st1 where "st1 = st\<lparr>out := addData (ts ! i) result (out st), validPoints := validPoints st + 1\<rparr>"
      define progress where "progress = cdiv (int32 (int i * 100)) (int (length ts))"
      define st2 where "st2 = (if progress \<noteq> lastProgress st1 \<and> cmod progress 10 = 0
        then st1\<lparr>emitted := emitted st1 @ [progressUpdated progress], lastProgress := progress\<rparr> else st1)"
      have step: "computeLoop c p vs ts i st = computeLoop c p vs ts (Suc i) st2"
        using Some False i by (subst computeLoop.simps) (simp add: st2_def st1_def progress_def Let_def)
      have valid: "validPoints st2 = validPoints st + 1"
        by (simp add: st2_def st1_def)
      have "\<exists>qs. emitted st2 = emitted st @ map progressUpdated qs \<and> length qs \<le> 1"
        by (cases "progress \<noteq> lastProgress st1 \<and> cmod progress 10 = 0")
           (auto simp: st2_def st1_def intro: exI [of _ "[progress]"] exI [of _ "[]"])
      then obtain qs where qs: "emitted st2 = emitted st @ map progressUpdated qs" "length qs \<le> 1"
        by blast
      from IH [of st2] obtain ps where
        "emitted (fst (computeLoop c p vs ts (Suc i) st2)) =
           emitted st2 @ map progressUpdated ps @
            (if snd (computeLoop c p vs ts (Suc i) st2) then [computationFailed ComputationCancelled] else [])"
        "int (length ps) \<le> validPoints (fst (computeLoop c p vs ts (Suc i) st2)) - validPoints st2"
        by blast
      then have "emitted (fst (computeLoop c p vs ts i st)) =
           emitted st @ map progressUpdated (qs @ ps) @
            (if snd (computeLoop c p vs ts i st) then [computationFailed ComputationCancelled] else []) \<and>
          int (length (qs @ ps)) \<le> validPoints (fst (computeLoop c p vs ts i st)) - validPoints st"
        using qs(2) by (simp add: step qs(1) valid)
      then show ?thesis ..
    qed
  qed
qed

lemma int32_id: "0 \<le> x \<Longrightarrow> x < 2 ^ 31 \<Longrightarrow> int32 x = x"
  by (simp add: int32_def)

lemma cdiv_nonneg: "0 \<le> a \<Longrightarrow> 0 < b \<Longrightarrow> cdiv a b = a div b"
  by (cases "a = 0") (simp_all add: cdiv_def)

lemma cmod_nonneg: "0 \<le> a \<Longrightarrow> 0 < b \<Longrightarrow> cmod a b = a mod b"
  by (simp add: cmod_def cdiv_nonneg minus_div_mult_eq_mod)

lemma progress_eq:
  assumes "i < n" and "n * 100 < 2 ^ 31"
  shows "cdiv (int32 (int i * 100)) (int n) = progressAt n i"
proof -
  have "int i * 100 < int n * 100"
    using assms(1) by simp
  also have "\<dots> < 2 ^ 31"
    using assms(2) by (metis of_nat_less_iff of_nat_mult of_nat_numeral of_nat_power)
  finally have "int32 (int i * 100) = int i * 100"
    by (intro int32_id) simp_all
  with assms(1) show ?thesis
    by (simp add: cdiv_nonneg progressAt_def)
qed

lemma progressAt_nat: "progressAt n i = int (i * 100 div n)"
  by (simp add: progressAt_def zdiv_int)

lemma progressAt_mono: "i \<le> j \<Longrightarrow> progressAt n i \<le> progressAt n j"
  by (simp add: progressAt_nat div_le_mono)

lemma progressAt_range: "i < n \<Longrightarrow> 0 \<le> progressAt n i \<and> progressAt n i < 100"
  by (simp add: progressAt_nat less_mult_imp_div_less)

lemma computeLoop_progressInvariant:
  assumes "length ts * 100 < 2 ^ 31" and "progressInvariant (length ts) i st" and "i \<le> length ts"
  shows "progressInvariant (length ts) (length ts) (fst (computeLoop c p vs ts i st))"
  using assms(2,3)
proof (induction "length ts - i" arbitrary: i st)
  case 0
  then have "length ts = i" by simp
  with "0.prems" show ?case
    by (subst computeLoop.simps) simp
next
  case (Suc m)
  then have i: "i < length ts" "m = length ts - Suc i"
    by auto
  note IH = Suc.hyps(1) [OF i(2) _ Suc_leI [OF i(1)]]
  have weaken: "\<And>st. progressInvariant (length ts) i st \<Longrightarrow> progressInvariant (length ts) (length ts) st"
    using i(1) unfolding progressInvariant_def by (meson less_trans)
  have next_inv: "\<And>st. progressInvariant (length ts) i st \<Longrightarrow> progressInvariant (length ts) (Suc i) st"
    unfolding progressInvariant_def by (meson less_Suc_eq)
  show ?case
  proof (cases "cancelRequested c i")
    case True
    with i weaken [OF Suc.prems(1)] show ?thesis
      by (subst computeLoop.simps) (simp add: progressInvariant_def progressValues_append)
  next
    case False
    show ?thesis
    proof (cases "computePoint c p vs (ts ! i)")
      case None
      have "progressInvariant (length ts) (Suc i) (st\<lparr>skippedPoints := skippedPoints st + 1\<rparr>)"
        using next_inv [OF Suc.prems(1)] by (simp add: progressInvariant_def)
      from IH [OF this] None False i show ?thesis
        by (subst computeLoop.simps) simp
    next
      case (Some result)
      define st1 where "st1 = st\<lparr>out := addData (ts ! i) result (out st), validPoints := validPoints st + 1\<rparr>"
      define progress where "progress = cdiv (int32 (int i * 100)) (int (length ts))"
      define st2 where "st2 = (if progress \<noteq> lastProgress st1 \<and> cmod progress 10 = 0
        then st1\<lparr>emitted := emitted st1 @ [progressUpdated progress], lastProgress := progress\<rparr> else st1)"
      have step: "computeLoop c p vs ts i st = computeLoop c p vs ts (Suc i) st2"
        using Some False i by (subst computeLoop.simps) (simp add: st2_def st1_def progress_def Let_def)
      have progress: "progress = progressAt (length ts) i"
        unfolding progress_def using i(1) assms(1) by (rule progress_eq)
      have range: "0 \<le> progress" "progress < 100"
        using progressAt_range [OF i(1)] by (simp_all add: progress)
      have inv1: "progressInvariant (length ts) i st1"
        using Suc.prems(1) by (simp add: progressInvariant_def st1_def)
      have last_le: "lastProgress st1 \<le> progress"
      proof -
        from inv1 consider "lastProgress st1 = - 1" | j where "j < i" "lastProgress st1 = progressAt (length ts) j"
          unfolding progressInvariant_def by blast
        then show ?thesis
        proof cases
          case 1
          with range show ?thesis by simp
        next
          case 2
          then show ?thesis
            using progressAt_mono [of j i "length ts"] by (simp add: progress)
        qed
      qed
      have "progressInvariant (length ts) (Suc i) st2"
      proof (cases "progress \<noteq> lastProgress st1 \<and> cmod progress 10 = 0")
        case False
        then have "st2 = st1" by (simp add: st2_def)
        with next_inv [OF inv1] show ?thesis by simp
      next
        case True
        then have st2: "emitted st2 = emitted st1 @ [progressUpdated progress]" "lastProgress st2 = progress"
          by (simp_all add: st2_def)
        from True have lt: "lastProgress st1 < progress" and mod: "progress mod 10 = 0"
          using last_le range by (simp_all add: cmod_nonneg)
        have old: "\<forall>q \<in> set (progressValues (emitted st1)).
            q \<le> lastProgress st1 \<and> q mod 10 = 0 \<and> (\<exists>j<i. q = progressAt (length ts) j)"
          and sorted: "sorted_wrt (<) (progressValues (emitted st1))"
          using inv1 by (simp_all add: progressInvariant_def)
        show ?thesis
          unfolding progressInvariant_def st2 progressValues_append
          using old sorted lt mod progress
          by (auto simp: sorted_wrt_append less_Suc_eq intro: exI [of _ i])
      qed
      from IH [OF this] show ?thesis
        by (simp add: step)
    qed
  qed
qed

lemma progressInvariant_bound:
  assumes "progressInvariant n n st"
  shows "length (progressValues (emitted st)) \<le> 10"
proof -
  define ps where "ps = progressValues (emitted st)"
  have sorted: "sorted_wrt (<) ps"
    and elems: "\<forall>p \<in> set ps. p mod 10 = 0 \<and> (\<exists>j<n. p = progressAt n j)"
    using assms by (auto simp: progressInvariant_def ps_def)
  have "set ps \<subseteq> (\<lambda>k. 10 * int k) ` {0..<10}"
  proof
    fix p
    assume "p \<in> set ps"
    with elems obtain j where "p mod 10 = 0" "j < n" "p = progressAt n j"
      by blast
    then have "0 \<le> p" "p < 100" "p mod 10 = 0"
      using progressAt_range [of j n] by simp_all
    then have "p = 10 * int (nat (p div 10))" "nat (p div 10) < 10"
      by auto
    then show "p \<in> (\<lambda>k. 10 * int k) ` {0..<10}"
      by (metis atLeastLessThan_iff image_eqI zero_le)
  qed
  then have "card (set ps) \<le> card ((\<lambda>k. 10 * int k) ` {0..<10::nat})"
    by (intro card_mono) simp_all
  also have "\<dots> \<le> card {0..<10::nat}"
    by (rule card_image_le) simp
  finally have "card (set ps) \<le> 10"
    by simp
  moreover have "distinct ps"
    using sorted by (simp add: strict_sorted_iff)
  ultimately show ?thesis
    by (simp add: distinct_card ps_def)
qed

subsection \<open>Runs\<close>

lemmas run_simps = startComputation_def prepare_def runLoop_def failRun_def exampleRun_def
  mkSeries_def valueAtSample_def emptyOutput_def computePoint_def contains_def seriesOf_def
  collectTimestamps_def insertTimestamps_def getTimestamp_def getIndexForTimestamp_def
  getVariables_def clearData_def addData_def update_def int32_def cdiv_def cmod_def
  computeLoop.simps

lemma writtenPoints_Nil_iff:
  "(writtenPoints c p vs ts = []) = (\<forall>t \<in> set ts. computePoint c p vs t = None)"
  by (induction ts) (auto split: option.splits)

lemma runLoop_result:
  assumes "k \<le> length ts"
    and "\<forall>j<k. \<not> cancelRequested c j"
    and "k < length ts \<longrightarrow> cancelRequested c k"
  shows "\<exists>ps. samples (outputSeries (runLoop c p vs ts)) = writtenPoints c p vs (take k ts) \<and>
           validCount (runLoop c p vs ts) = int (length (writtenPoints c p vs (take k ts))) \<and>
           validCount (runLoop c p vs ts) + skippedCount (runLoop c p vs ts) = int k \<and>
           (if k < length ts then
              signals (runLoop c p vs ts) =
                computationStarted # map progressUpdated ps @ [computationFailed ComputationCancelled] \<and>
              updates (outputSeries (runLoop c p vs ts)) = updates (currentOutputSeries c)
            else
              updates (outputSeries (runLoop c p vs ts)) = updates (currentOutputSeries c) + 1 \<and>
              (if writtenPoints c p vs ts = [] then
                 signals (runLoop c p vs ts) =
                   [computationStarted, computationFailed (NoValidResults (int (length ts)))]
               else
                 signals (runLoop c p vs ts) =
                   computationStarted # map progressUpdated ps @ [progressUpdated 100, computationComplete]))"
proof -
  define st0 where "st0 = \<lparr>out = clearData (currentOutputSeries c), lastProgress = - 1,
     validPoints = 0, skippedPoints = 0, emitted = [computationStarted]\<rparr>"
  have "\<forall>j. 0 \<le> j \<and> j < k \<longrightarrow> \<not> cancelRequested c j"
    using assms(2) by simp
  from computeLoop_until [OF _ assms(1) this assms(3), of p vs st0]
  obtain st' where loop: "computeLoop c p vs ts 0 st0 = (st', k < length ts)"
    and out: "samples (out st') = writtenPoints c p vs (take k ts)"
      "updates (out st') = updates (currentOutputSeries c)"
    and counts: "validPoints st' = int (length (writtenPoints c p vs (take k ts)))"
      "validPoints st' + skippedPoints st' = int k"
    by (auto simp: st0_def clearData_def)
  have st0: "emitted st0 = [computationStarted]" "validPoints st0 = 0"
    by (simp_all add: st0_def)
  from computeLoop_emitted [of c p vs ts 0 st0] obtain ps where
    ps: "emitted st' = computationStarted # map progressUpdated ps @
           (if k < length ts then [computationFailed ComputationCancelled] else [])"
      and few: "int (length ps) \<le> validPoints st'"
    unfolding loop st0 by auto
  have run: "runLoop c p vs ts =
     (if k < length ts then
        \<lparr>signals = emitted st', outputSeries = out st',
         validCount = validPoints st', skippedCount = skippedPoints st'\<rparr>
      else if validPoints st' = 0 then
        \<lparr>signals = emitted st' @ [computationFailed (NoValidResults (skippedPoints st'))],
         outputSeries = update (out st'),
         validCount = validPoints st', skippedCount = skippedPoints st'\<rparr>
      else
        \<lparr>signals = emitted st' @ [progressUpdated 100, computationComplete],
         outputSeries = update (out st'),
         validCount = validPoints st', skippedCount = skippedPoints st'\<rparr>)"
    by (simp add: runLoop_def Let_def loop flip: st0_def)
  show ?thesis
  proof (cases "k < length ts")
    case True
    with run out counts ps show ?thesis
      by auto
  next
    case False
    with assms(1) have k: "k = length ts"
      by simp
    show ?thesis
    proof (cases "writtenPoints c p vs ts = []")
      case True
      then have "validPoints st' = 0" "skippedPoints st' = int (length ts)"
        using counts k by simp_all
      moreover have "ps = []"
        using few calculation(1) by simp
      ultimately show ?thesis
        using run out counts ps k True by (auto simp: update_def)
    next
      case False
      then have "validPoints st' \<noteq> 0"
        using counts k by simp
      then show ?thesis
        using run out counts ps k False by (auto simp: update_def)
    qed
  qed
qed


lemma startComputation_loop:
  "prepare c = Some (Inr (parser, requiredVars, timestamps)) \<Longrightarrow>
   startComputation c = Some (runLoop c parser requiredVars timestamps)"
  by (simp add: startComputation_def)

lemma startComputation_fail:
  "prepare c = Some (Inl reason) \<Longrightarrow> startComputation c = Some (failRun c reason)"
  by (simp add: startComputation_def)

lemma prepare_returns: "\<exists>r. prepare c = Some r"
  using parse_returns [of "currentExpression c" newParser]
  by (auto simp: prepare_def split: prod.splits)

lemma prepare_timestamps:
  "prepare c = Some (Inr (parser, requiredVars, timestamps)) \<Longrightarrow>
   timestamps = collectTimestamps (currentVariableMapping c) \<and> timestamps \<noteq> []"
  by (auto simp: prepare_def Let_def split: option.splits prod.splits if_splits)

lemma runLoop_progress:
  assumes "length ts * 100 < 2 ^ 31"
  shows "\<exists>ps. sorted_wrt (<) ps \<and> length ps \<le> 10 \<and>
           (\<forall>q \<in> set ps. q mod 10 = 0 \<and> q < 100 \<and> (\<exists>i<length ts. q = progressAt (length ts) i)) \<and>
           (progressValues (signals (runLoop c p vs ts)) = ps \<and>
              computationComplete \<notin> set (signals (runLoop c p vs ts)) \<or>
            progressValues (signals (runLoop c p vs ts)) = ps @ [100] \<and>
              computationComplete \<in> set (signals (runLoop c p vs ts)))"
proof -
  define st0 where "st0 = \<lparr>out = clearData (currentOutputSeries c), lastProgress = - 1,
     validPoints = 0, skippedPoints = 0, emitted = [computationStarted]\<rparr>"
  define st' where "st' = fst (computeLoop c p vs ts 0 st0)"
  define cancelled where "cancelled = snd (computeLoop c p vs ts 0 st0)"
  define ps where "ps = progressValues (emitted st')"
  have loop: "computeLoop c p vs ts 0 st0 = (st', cancelled)"
    by (simp add: st'_def cancelled_def)
  have "progressInvariant (length ts) 0 st0"
    by (simp add: progressInvariant_def st0_def)
  from computeLoop_progressInvariant [OF assms this, of c p vs]
  have inv: "progressInvariant (length ts) (length ts) st'"
    by (simp add: st'_def)
  then have sorted: "sorted_wrt (<) ps"
    and elems: "\<forall>q \<in> set ps. q mod 10 = 0 \<and> (\<exists>i<length ts. q = progressAt (length ts) i)"
    by (auto simp: progressInvariant_def ps_def)
  have small: "\<forall>q \<in> set ps. q < 100"
  proof
    fix q
    assume "q \<in> set ps"
    with elems obtain i where "i < length ts" "q = progressAt (length ts) i"
      by blast
    then show "q < 100"
      using progressAt_range [of i "length ts"] by simp
  qed
  have len: "length ps \<le> 10"
    using progressInvariant_bound [OF inv] by (simp add: ps_def)
  from computeLoop_emitted [of c p vs ts 0 st0] obtain qs where
    "emitted st' = computationStarted # map progressUpdated qs @
       (if cancelled then [computationFailed ComputationCancelled] else [])"
    unfolding loop by (auto simp: st0_def)
  then have no_complete: "computationComplete \<notin> set (emitted st')"
    by auto
  have run: "runLoop c p vs ts =
     (if cancelled then
        \<lparr>signals = emitted st', outputSeries = out st',
         validCount = validPoints st', skippedCount = skippedPoints st'\<rparr>
      else if validPoints st' = 0 then
        \<lparr>signals = emitted st' @ [computationFailed (NoValidResults (skippedPoints st'))],
         outputSeries = update (out st'),
         validCount = validPoints st', skippedCount = skippedPoints st'\<rparr>
      else
        \<lparr>signals = emitted st' @ [progressUpdated 100, computationComplete],
         outputSeries = update (out st'),
         validCount = validPoints st', skippedCount = skippedPoints st'\<rparr>)"
    by (simp add: runLoop_def Let_def loop flip: st0_def)
  have shape: "progressValues (signals (runLoop c p vs ts)) = ps \<and>
          computationComplete \<notin> set (signals (runLoop c p vs ts)) \<or>
        progressValues (signals (runLoop c p vs ts)) = ps @ [100] \<and>
          computationComplete \<in> set (signals (runLoop c p vs ts))"
    using no_complete by (simp add: run progressValues_append ps_def)
  have "\<forall>q \<in> set ps. q mod 10 = 0 \<and> q < 100 \<and> (\<exists>i<length ts. q = progressAt (length ts) i)"
    using elems small by simp
  with sorted len shape show ?thesis
    by (intro exI [of _ ps]) (simp only: simp_thms)
qed

lemma index_of_sample:
  assumes "sorted_wrt (<) (timestampsOf s)" and "i < length s"
  shows "getIndexForTimestamp s (getTimestamp s i) = i"
proof -
  define ts where "ts = timestampsOf s"
  have len: "length ts = length s" and t: "getTimestamp s i = ts ! i"
    using assms(2) by (simp_all add: ts_def timestampsOf_def getTimestamp_def)
  have "takeWhile (\<lambda>x. x < ts ! i) ts = take i ts"
  proof (rule takeWhile_eq_take_P_nth)
    fix j
    assume "j < i" "j < length ts"
    then show "ts ! j < ts ! i"
      using assms len by (simp add: sorted_wrt_nth_less ts_def)
  qed simp
  then show ?thesis
    using assms(2) len by (simp add: index_timestamps t flip: ts_def)
qed

subsection \<open>Validity in the words of the specification\<close>

text \<open>
  For series that are not empty and are stored in ascending order of time, the check of
  the code is \<open>validInSeries\<close>, which implies the validity of the specification. The two
  differ for a timestamp equal to the last sample of a series, which the code judges by
  the gap before it.
\<close>

lemma isTimestampValid_validInSeries:
  assumes "\<forall>entry \<in> set series. snd entry \<noteq> [] \<and> sorted (timestampsOf (snd entry))"
  shows "isTimestampValid t series g = (\<forall>entry \<in> set series. validInSeries t (snd entry) g)"
  using assms by (auto simp: isTimestampValid_all seriesCheck_validInSeries)

lemma validInSeries_validAsSpecified:
  assumes "s \<noteq> []" and "validInSeries t s g"
  shows "validAsSpecified t s g"
proof (cases "hd (timestampsOf s) < t \<and> t = last (timestampsOf s)")
  case False
  with assms(2) show ?thesis
    by (auto simp: validInSeries_def validAsSpecified_def split: if_splits)
next
  case True
  let ?ts = "timestampsOf s"
  from assms(1) have ne: "?ts \<noteq> []" by (simp add: timestampsOf_def)
  have "hd ?ts \<in> set (filter (\<lambda>x. x < t) ?ts)" using True ne by simp
  then have "Max (set (filter (\<lambda>x. x < t) ?ts)) \<in> set (filter (\<lambda>x. x < t) ?ts)"
    by (intro Max_in) auto
  then have before: "sampleBefore s t < t" by (simp add: sampleBefore_def)
  have "last ?ts \<in> set (filter (\<lambda>x. t \<le> x) ?ts)" using True ne by simp
  then have "Min (set (filter (\<lambda>x. t \<le> x) ?ts)) \<in> set (filter (\<lambda>x. t \<le> x) ?ts)"
    by (intro Min_in) auto
  then have after: "t \<le> sampleAfter s t" by (simp add: sampleAfter_def)
  from assms(2) True have "sampleAfter s t - sampleBefore s t \<le> g"
    by (simp add: validInSeries_def)
  with before after have "0 \<le> g" by linarith
  with True show ?thesis by (simp add: validAsSpecified_def)
qed

lemma isTimestampValid_validAsSpecified:
  assumes "\<forall>entry \<in> set series. snd entry \<noteq> [] \<and> sorted (timestampsOf (snd entry))"
    and "isTimestampValid t series g"
  shows "\<forall>entry \<in> set series. validAsSpecified t (snd entry) g"
  using assms
  by (auto simp: isTimestampValid_all seriesCheck_validInSeries intro: validInSeries_validAsSpecified)

lemma computeLoop_samples:
  "set (samples (out (fst (computeLoop c p vs ts i st))))
     \<subseteq> set (samples (out st)) \<union> {(t, v). computePoint c p vs t = Some v}"
proof (induction c p vs ts i st rule: computeLoop.induct)
  case (1 c parser requiredVars timestamps i st)
  show ?case
  proof (cases "i < length timestamps \<and> \<not> cancelRequested c i")
    case False
    then show ?thesis by (subst computeLoop.simps) auto
  next
    case True
    show ?thesis
    proof (cases "computePoint c parser requiredVars (timestamps ! i)")
      case None
      with True "1.IH"(1) show ?thesis
        by (subst computeLoop.simps) auto
    next
      case (Some result)
      with True "1.IH"(2,3) [OF _ _ Some refl refl] show ?thesis
        by (subst computeLoop.simps) (auto simp: Let_def addData_def)
    qed
  qed
qed

lemma runLoop_samples:
  "set (samples (outputSeries (runLoop c p vs ts))) \<subseteq> {(t, v). computePoint c p vs t = Some v}"
  using computeLoop_samples [of c p vs ts 0
    "\<lparr>out = clearData (currentOutputSeries c), lastProgress = - 1,
       validPoints = 0, skippedPoints = 0, emitted = [computationStarted]\<rparr>"]
  by (auto simp: runLoop_def Let_def clearData_def update_def split: prod.splits)

section \<open>The claims about the trace computer\<close>

text \<open>
  C7. For every collection of bound input series, the sequence that \<open>collectTimestamps\<close>
  builds is the set of all timestamps of the series in ascending order: it is strictly
  increasing, has no duplicates, and is the same for every order in which the series
  are supplied.
\<close>

theorem collectTimestamps_sorted_union:
  "collectTimestamps series = sorted_list_of_set (allTimestamps series) \<and>
   sorted_wrt (<) (collectTimestamps series) \<and>
   distinct (collectTimestamps series) \<and>
   (\<forall>series'. set series' = set series \<longrightarrow> collectTimestamps series' = collectTimestamps series)"
  using sorted_collectTimestamps [of series]
  by (auto simp: collectTimestamps_eq strict_sorted_iff dest: allTimestamps_cong)

text \<open>
  The series with timestamps 0, 10, 20 and 5, 15, 25 give 0, 5, 10, 15, 20, 25 in either
  order.
\<close>

theorem collectTimestamps_sorted_union_witness:
  "collectTimestamps
     [(''a'', mkSeries [0, 10, 20] [Finite 1, Finite 2, Finite 3]),
      (''b'', mkSeries [5, 15, 25] [Finite 4, Finite 5, Finite 6])] = [0, 5, 10, 15, 20, 25] \<and>
   collectTimestamps
     [(''b'', mkSeries [5, 15, 25] [Finite 4, Finite 5, Finite 6]),
      (''a'', mkSeries [0, 10, 20] [Finite 1, Finite 2, Finite 3])] = [0, 5, 10, 15, 20, 25]"
proof -
  let ?ab = "[(''a'', mkSeries [0, 10, 20] [Finite 1, Finite 2, Finite 3]),
              (''b'', mkSeries [5, 15, 25] [Finite 4, Finite 5, Finite 6])]"
  let ?ba = "[(''b'', mkSeries [5, 15, 25] [Finite 4, Finite 5, Finite 6]),
              (''a'', mkSeries [0, 10, 20] [Finite 1, Finite 2, Finite 3])]"
  have ab: "collectTimestamps ?ab = [0, 5, 10, 15, 20, 25]"
    by (simp add: collectTimestamps_def insertTimestamps_def mkSeries_def getTimestamp_def upt_rec)
  have "set ?ba = set ?ab"
    by auto
  with collectTimestamps_sorted_union [of ?ab] have "collectTimestamps ?ba = collectTimestamps ?ab"
    by blast
  with ab show ?thesis
    by simp
qed

text \<open>
  C10. A timestamp that is a sample of a bound series can be judged invalid and skipped:
  when it is the sample at index \<open>i > 0\<close> of a series with increasing timestamps, the
  check of that series is decided by the gap between the samples \<open>i - 1\<close> and \<open>i\<close>, and
  the point is skipped in every run that binds the series with a smaller gap size.
\<close>

theorem sample_timestamp_judged_by_gap_before:
  assumes "sorted_wrt (<) (timestampsOf s)" and "0 < i" and "i < length s"
  shows "isTimestampValid (getTimestamp s i) [(name, s)] g
           = (getTimestamp s i - getTimestamp s (i - 1) \<le> g) \<and>
         ((name, s) \<in> set (currentVariableMapping c) \<and>
          currentMaxGapSize c < getTimestamp s i - getTimestamp s (i - 1)
            \<longrightarrow> computePoint c parser requiredVars (getTimestamp s i) = None)"
proof -
  have check: "seriesCheck (getTimestamp s i) s g = (getTimestamp s i - getTimestamp s (i - 1) \<le> g)" for g
    using assms by (auto simp: seriesCheck_def index_of_sample)
  then show ?thesis
    by (auto simp: isTimestampValid_all computePoint_def)
qed

text \<open>
  For the series with samples at 0 and 2000 and gap size 1000, the timestamp 2000 is
  invalid.
\<close>

theorem sample_timestamp_judged_by_gap_before_witness:
  "sorted_wrt (<) (timestampsOf (mkSeries [0, 2000] [Finite 1, Finite 2])) \<and>
   \<not> isTimestampValid 2000 [(''a'', mkSeries [0, 2000] [Finite 1, Finite 2])] 1000 \<and>
   computePoint (exampleRun ''a'' (mkSeries [0, 2000] [Finite 1, Finite 2]) (\<lambda>i. False))
     \<lparr>rootNode = Some (NODE_VARIABLE ''a''), errorMessage = None\<rparr> [''a''] 2000 = None"
proof -
  let ?s = "mkSeries [0, 2000] [Finite 1, Finite 2]"
  have s: "sorted_wrt (<) (timestampsOf ?s)" "0 < (1::nat)" "1 < length ?s"
    by (simp_all add: timestampsOf_def mkSeries_def)
  have t: "getTimestamp ?s 1 = 2000" "getTimestamp ?s (1 - 1) = 0"
    by (simp_all add: getTimestamp_def mkSeries_def)
  from sample_timestamp_judged_by_gap_before
         [OF s, of "''a''" 1000 "exampleRun ''a'' ?s (\<lambda>i. False)"
            "\<lparr>rootNode = Some (NODE_VARIABLE ''a''), errorMessage = None\<rparr>" "[''a'']"]
  show ?thesis
    using s(1) unfolding t by (simp add: exampleRun_def)
qed

text \<open>
  C8. For every timestamp and every collection of bound series that are not empty (and
  are stored in ascending order of time), the timestamp is used only if it is valid in
  every series: a timestamp that passes \<open>isTimestampValid\<close>, a timestamp for which a
  point is computed, and the timestamp of every sample in the output of a run that has
  passed the four checks, is valid in every bound series. Validity in one series is:
  for a timestamp at or outside the first or the last sample, the distance to that
  sample is at most \<open>maxGapSize\<close>; for any other, the two samples that bracket it are at
  most \<open>maxGapSize\<close> apart. With gap size 1000 and samples at 0, 10, 2000 and 2010, the
  timestamp 1000 is invalid, 5 and 2005 are valid, in the words of the specification and
  for \<open>isTimestampValid\<close>.
\<close>

theorem timestamp_used_only_if_valid_in_every_series:
  assumes "\<forall>entry \<in> set (currentVariableMapping c).
             snd entry \<noteq> [] \<and> sorted (timestampsOf (snd entry))"
  shows "(isTimestampValid t (currentVariableMapping c) (currentMaxGapSize c) \<longrightarrow>
            (\<forall>entry \<in> set (currentVariableMapping c).
                validAsSpecified t (snd entry) (currentMaxGapSize c))) \<and>
         (computePoint c parser requiredVars t \<noteq> None \<longrightarrow>
            (\<forall>entry \<in> set (currentVariableMapping c).
                validAsSpecified t (snd entry) (currentMaxGapSize c))) \<and>
         (prepare c = Some (Inr (parser, requiredVars, timestamps)) \<longrightarrow>
            (\<exists>r. startComputation c = Some r \<and>
               (\<forall>sample \<in> set (samples (outputSeries r)).
                  \<forall>entry \<in> set (currentVariableMapping c).
                     validAsSpecified (fst sample) (snd entry) (currentMaxGapSize c)))) \<and>
         \<not> validAsSpecified 1000 (mkSeries [0, 10, 2000, 2010] [Finite 1, Finite 2, Finite 3, Finite 4]) 1000 \<and>
         \<not> isTimestampValid 1000
             [(name, mkSeries [0, 10, 2000, 2010] [Finite 1, Finite 2, Finite 3, Finite 4])] 1000 \<and>
         validAsSpecified 5 (mkSeries [0, 10, 2000, 2010] [Finite 1, Finite 2, Finite 3, Finite 4]) 1000 \<and>
         isTimestampValid 5
           [(name, mkSeries [0, 10, 2000, 2010] [Finite 1, Finite 2, Finite 3, Finite 4])] 1000 \<and>
         validAsSpecified 2005 (mkSeries [0, 10, 2000, 2010] [Finite 1, Finite 2, Finite 3, Finite 4]) 1000 \<and>
         isTimestampValid 2005
           [(name, mkSeries [0, 10, 2000, 2010] [Finite 1, Finite 2, Finite 3, Finite 4])] 1000"
proof -
  let ?valid = "\<lambda>t. \<forall>entry \<in> set (currentVariableMapping c).
                  validAsSpecified t (snd entry) (currentMaxGapSize c)"
  have check: "isTimestampValid t (currentVariableMapping c) (currentMaxGapSize c) \<Longrightarrow> ?valid t" for t
    using assms by (rule isTimestampValid_validAsSpecified)
  have point: "computePoint c parser requiredVars t \<noteq> None \<Longrightarrow> ?valid t" for t
    by (rule check) (auto simp: computePoint_def split: if_splits)
  have run: "\<exists>r. startComputation c = Some r \<and>
               (\<forall>sample \<in> set (samples (outputSeries r)). ?valid (fst sample))"
    if "prepare c = Some (Inr (parser, requiredVars, timestamps))"
  proof -
    let ?r = "runLoop c parser requiredVars timestamps"
    have "?valid (fst sample)" if "sample \<in> set (samples (outputSeries ?r))" for sample
    proof -
      from that runLoop_samples [of c parser requiredVars timestamps]
      have "computePoint c parser requiredVars (fst sample) \<noteq> None" by auto
      then show ?thesis by (rule point)
    qed
    with startComputation_loop [OF \<open>prepare c = Some (Inr (parser, requiredVars, timestamps))\<close>]
    show ?thesis by blast
  qed
  let ?s = "mkSeries [0, 10, 2000, 2010] [Finite 1, Finite 2, Finite 3, Finite 4]"
  have f: "filter (\<lambda>x. x < (1000::real)) [0, 10, 2000, 2010] = [0, 10]"
    "filter (\<lambda>x. (1000::real) \<le> x) [0, 10, 2000, 2010] = [2000, 2010]"
    "filter (\<lambda>x. x < (5::real)) [0, 10, 2000, 2010] = [0]"
    "filter (\<lambda>x. (5::real) \<le> x) [0, 10, 2000, 2010] = [10, 2000, 2010]"
    "filter (\<lambda>x. x < (2005::real)) [0, 10, 2000, 2010] = [0, 10, 2000]"
    "filter (\<lambda>x. (2005::real) \<le> x) [0, 10, 2000, 2010] = [2010]"
    by simp_all
  have spec: "\<not> validAsSpecified 1000 ?s 1000" "validAsSpecified 5 ?s 1000"
    "validAsSpecified 2005 ?s 1000"
    by (simp_all add: validAsSpecified_def timestampsOf_def mkSeries_def sampleBefore_def
          sampleAfter_def f)
  have code: "\<not> isTimestampValid 1000 [(name, ?s)] 1000" "isTimestampValid 5 [(name, ?s)] 1000"
    "isTimestampValid 2005 [(name, ?s)] 1000"
    by (simp_all add: mkSeries_def getIndexForTimestamp_def getTimestamp_def)
  from check point run spec code show ?thesis
    by (intro conjI impI) assumption+
qed

text \<open>
  With gap size 1000 and samples at 0, 10, 2000 and 2010: the timestamp 5 passes the
  check, the point at 10 is computed, the run writes the points at 0, 10 and 2010 and
  skips 2000, and each of these timestamps is valid.
\<close>

theorem timestamp_used_only_if_valid_in_every_series_witness:
  "mkSeries [0, 10, 2000, 2010] [Finite 1, Finite 2, Finite 3, Finite 4] \<noteq> [] \<and>
   sorted (timestampsOf (mkSeries [0, 10, 2000, 2010] [Finite 1, Finite 2, Finite 3, Finite 4])) \<and>
   isTimestampValid 5 [(''a'', mkSeries [0, 10, 2000, 2010] [Finite 1, Finite 2, Finite 3, Finite 4])] 1000 \<and>
   validAsSpecified 5 (mkSeries [0, 10, 2000, 2010] [Finite 1, Finite 2, Finite 3, Finite 4]) 1000 \<and>
   computePoint
     (exampleRun ''a'' (mkSeries [0, 10, 2000, 2010] [Finite 1, Finite 2, Finite 3, Finite 4]) (\<lambda>i. False))
     \<lparr>rootNode = Some (NODE_VARIABLE ''a''), errorMessage = None\<rparr> [''a''] 10 = Some (Finite 2) \<and>
   validAsSpecified 10 (mkSeries [0, 10, 2000, 2010] [Finite 1, Finite 2, Finite 3, Finite 4]) 1000 \<and>
   startComputation
     (exampleRun ''a'' (mkSeries [0, 10, 2000, 2010] [Finite 1, Finite 2, Finite 3, Finite 4]) (\<lambda>i. False)) =
     Some \<lparr>signals = [computationStarted, progressUpdated 0, progressUpdated 100, computationComplete],
           outputSeries = \<lparr>samples = [(0, Finite 1), (10, Finite 2), (2010, Finite 4)], updates = 1\<rparr>,
           validCount = 3, skippedCount = 1\<rparr> \<and>
   validAsSpecified 0 (mkSeries [0, 10, 2000, 2010] [Finite 1, Finite 2, Finite 3, Finite 4]) 1000 \<and>
   validAsSpecified 2010 (mkSeries [0, 10, 2000, 2010] [Finite 1, Finite 2, Finite 3, Finite 4]) 1000"
proof -
  let ?s = "mkSeries [0, 10, 2000, 2010] [Finite 1, Finite 2, Finite 3, Finite 4]"
  let ?c = "exampleRun ''a'' ?s (\<lambda>i. False)"
  let ?p = "\<lparr>rootNode = Some (NODE_VARIABLE ''a''), errorMessage = None\<rparr>"
  have m: "currentVariableMapping ?c = [(''a'', ?s)]" "currentMaxGapSize ?c = 1000"
    by (simp_all add: exampleRun_def)
  have s: "?s \<noteq> []" "sorted (timestampsOf ?s)"
    by (simp_all add: timestampsOf_def mkSeries_def)
  then have h: "\<forall>entry \<in> set (currentVariableMapping ?c).
                  snd entry \<noteq> [] \<and> sorted (timestampsOf (snd entry))"
    unfolding m by simp
  have check: "isTimestampValid 5 [(''a'', ?s)] 1000"
    by (simp add: mkSeries_def getIndexForTimestamp_def getTimestamp_def)
  have point: "computePoint ?c ?p [''a''] 10 = Some (Finite 2)"
    by (simp add: run_simps engine_simps)
  have pre: "prepare ?c = Some (Inr (?p, [''a''], [0, 10, 2000, 2010]))"
    by (simp add: run_simps engine_simps lexer_simps parser_simps upt_rec)
  have run: "startComputation ?c =
     Some \<lparr>signals = [computationStarted, progressUpdated 0, progressUpdated 100, computationComplete],
           outputSeries = \<lparr>samples = [(0, Finite 1), (10, Finite 2), (2010, Finite 4)], updates = 1\<rparr>,
           validCount = 3, skippedCount = 1\<rparr>"
    by (simp add: run_simps engine_simps lexer_simps parser_simps upt_rec)
  from timestamp_used_only_if_valid_in_every_series [OF h, of 5 ?p "[''a'']" "[0, 10, 2000, 2010]"] check
  have v5: "validAsSpecified 5 ?s 1000"
    unfolding m by simp
  from timestamp_used_only_if_valid_in_every_series [OF h, of 10 ?p "[''a'']" "[0, 10, 2000, 2010]"] point
  have v10: "validAsSpecified 10 ?s 1000"
    unfolding m by simp
  from timestamp_used_only_if_valid_in_every_series [OF h, of 10 ?p "[''a'']" "[0, 10, 2000, 2010]"] pre
  have "\<exists>r. startComputation ?c = Some r \<and>
               (\<forall>sample \<in> set (samples (outputSeries r)). validAsSpecified (fst sample) ?s 1000)"
    unfolding m by simp
  then have vrun: "validAsSpecified 0 ?s 1000" "validAsSpecified 2010 ?s 1000"
    unfolding run by simp_all
  from s check v5 point v10 run vrun show ?thesis
    by (intro conjI) 
qed

text \<open>
  C9. A run that fails before the loop (the expression does not parse, a variable of the
  expression has no binding, the series of a variable is empty, or there is no timestamp
  at all) emits the start and one failure, and its output series is the one it was
  given: not cleared, nothing added.
\<close>

theorem failure_before_loop_keeps_output:
  assumes "parse (currentExpression c) newParser = Some (ok, parser)"
    and "\<not> ok \<or>
         (\<exists>var \<in> set (getVariables parser). \<not> contains (currentVariableMapping c) var) \<or>
         (\<exists>var \<in> set (getVariables parser). seriesOf (currentVariableMapping c) var = []) \<or>
         collectTimestamps (currentVariableMapping c) = []"
  shows "\<exists>reason. startComputation c =
           Some \<lparr>signals = [computationStarted, computationFailed reason],
                 outputSeries = currentOutputSeries c, validCount = 0, skippedCount = 0\<rparr>"
proof -
  have "\<exists>reason. prepare c = Some (Inl reason)"
    using assms
    by (auto simp: prepare_def Let_def find_None_iff split: option.splits)
  then show ?thesis
    by (auto simp: startComputation_fail failRun_def)
qed

text \<open>
  A run of "a + b" with a binding for \<open>a\<close> only fails for the variable \<open>b\<close> and keeps the
  sample and the update count of its output series.
\<close>

theorem failure_before_loop_keeps_output_witness:
  "parse ''a + b'' newParser =
     Some (True, \<lparr>rootNode = Some (NODE_OPERATOR OP_ADD (Some (NODE_VARIABLE ''a''))
                                 (Some (NODE_VARIABLE ''b''))), errorMessage = None\<rparr>) \<and>
   startComputation
     ((exampleRun ''a + b'' (mkSeries [0, 1] [Finite 1, Finite 2]) (\<lambda>i. False))
        \<lparr>currentOutputSeries := \<lparr>samples = [(5, Finite 7)], updates = 2\<rparr>\<rparr>) =
   Some \<lparr>signals = [computationStarted, computationFailed (VariableNotFound ''b'')],
         outputSeries = \<lparr>samples = [(5, Finite 7)], updates = 2\<rparr>,
         validCount = 0, skippedCount = 0\<rparr>"
proof -
  let ?c = "(exampleRun ''a + b'' (mkSeries [0, 1] [Finite 1, Finite 2]) (\<lambda>i. False))
        \<lparr>currentOutputSeries := \<lparr>samples = [(5, Finite 7)], updates = 2\<rparr>\<rparr>"
  let ?p = "\<lparr>rootNode = Some (NODE_OPERATOR OP_ADD (Some (NODE_VARIABLE ''a''))
                                 (Some (NODE_VARIABLE ''b''))), errorMessage = None\<rparr>"
  have p: "parse ''a + b'' newParser = Some (True, ?p)"
    by (simp add: engine_simps lexer_simps parser_simps)
  then have h: "parse (currentExpression ?c) newParser = Some (True, ?p)"
    by (simp add: exampleRun_def)
  have missing: "\<not> True \<or>
         (\<exists>var \<in> set (getVariables ?p). \<not> contains (currentVariableMapping ?c) var) \<or>
         (\<exists>var \<in> set (getVariables ?p). seriesOf (currentVariableMapping ?c) var = []) \<or>
         collectTimestamps (currentVariableMapping ?c) = []"
    by (simp add: getVariables_def contains_def exampleRun_def)
  have reason: "prepare ?c = Some (Inl (VariableNotFound ''b''))"
    using p by (simp add: prepare_def getVariables_def contains_def exampleRun_def)
  from failure_before_loop_keeps_output [OF h missing] obtain reason where
    "startComputation ?c = Some \<lparr>signals = [computationStarted, computationFailed reason],
       outputSeries = currentOutputSeries ?c, validCount = 0, skippedCount = 0\<rparr>" ..
  moreover from this have "reason = VariableNotFound ''b''"
    by (simp add: startComputation_fail [OF reason] failRun_def)
  ultimately show ?thesis
    using p by (simp add: exampleRun_def)
qed

text \<open>
  C1, as stated, has a cancelled run report an outcome of its own, distinguished from
  failure. The class has no such signal: the run below, cancelled at its second
  timestamp, ends with \<open>computationFailed\<close>, the signal of every failure, and differs
  from the other failures by the reason only.
\<close>

theorem cancelled_run_signals_failure_counterexample:
  "startComputation
     (exampleRun ''a'' (mkSeries [0, 1, 2] [Finite 1, Finite 1, Finite 1]) (\<lambda>i. 1 \<le> i)) =
   Some \<lparr>signals = [computationStarted, progressUpdated 0, computationFailed ComputationCancelled],
         outputSeries = \<lparr>samples = [(0, Finite 1)], updates = 0\<rparr>,
         validCount = 1, skippedCount = 0\<rparr>"
  by (simp add: run_simps engine_simps lexer_simps parser_simps upt_rec)

text \<open>
  C1, amended. In every run that has passed the four checks and reads the cancellation
  flag as set at the check that opens iteration \<open>k\<close>, and not before, the run stops
  there: it emits \<open>computationFailed\<close> with the reason "Computation cancelled" as its last
  signal, after the start and progress signals only; the output series holds exactly
  the points of the first \<open>k\<close> timestamps and has not been updated; \<open>k\<close> timestamps were
  counted as valid or skipped.
\<close>

theorem cancellation_stops_run:
  assumes "prepare c = Some (Inr (parser, requiredVars, timestamps))"
    and "k < length timestamps" and "cancelRequested c k" and "\<forall>j<k. \<not> cancelRequested c j"
  shows "\<exists>r ps. startComputation c = Some r \<and>
           signals r =
             computationStarted # map progressUpdated ps @ [computationFailed ComputationCancelled] \<and>
           samples (outputSeries r) = writtenPoints c parser requiredVars (take k timestamps) \<and>
           updates (outputSeries r) = updates (currentOutputSeries c) \<and>
           validCount r + skippedCount r = int k"
proof -
  have "k \<le> length timestamps" "k < length timestamps \<longrightarrow> cancelRequested c k"
    using assms(2,3) by simp_all
  from runLoop_result [OF this(1) assms(4) this(2), of parser requiredVars] assms(2)
  show ?thesis
    unfolding startComputation_loop [OF assms(1)] by auto
qed

text \<open>The run above, cancelled at iteration 1, keeps the point of timestamp 0.\<close>

theorem cancellation_stops_run_witness:
  "prepare (exampleRun ''a'' (mkSeries [0, 1, 2] [Finite 1, Finite 1, Finite 1]) (\<lambda>i. 1 \<le> i)) =
     Some (Inr (\<lparr>rootNode = Some (NODE_VARIABLE ''a''), errorMessage = None\<rparr>, [''a''], [0, 1, 2])) \<and>
   (\<exists>r ps. startComputation
       (exampleRun ''a'' (mkSeries [0, 1, 2] [Finite 1, Finite 1, Finite 1]) (\<lambda>i. 1 \<le> i)) = Some r \<and>
     signals r =
       computationStarted # map progressUpdated ps @ [computationFailed ComputationCancelled] \<and>
     samples (outputSeries r) = [(0, Finite 1)] \<and>
     updates (outputSeries r) = 0 \<and>
     validCount r + skippedCount r = 1)"
proof -
  let ?c = "exampleRun ''a'' (mkSeries [0, 1, 2] [Finite 1, Finite 1, Finite 1]) (\<lambda>i. 1 \<le> i)"
  let ?p = "\<lparr>rootNode = Some (NODE_VARIABLE ''a''), errorMessage = None\<rparr>"
  have h: "prepare ?c = Some (Inr (?p, [''a''], [0, 1, 2]))"
    by (simp add: run_simps engine_simps lexer_simps parser_simps upt_rec)
  have k: "(1::nat) < length [0, 1, 2 :: real]" "cancelRequested ?c 1" "\<forall>j<1. \<not> cancelRequested ?c j"
    by (simp_all add: exampleRun_def)
  have w: "writtenPoints ?c ?p [''a''] (take 1 [0, 1, 2]) = [(0, Finite 1)]"
    by (simp add: run_simps engine_simps)
  from cancellation_stops_run [OF h k] h show ?thesis
    unfolding w by (simp add: exampleRun_def emptyOutput_def)
qed

text \<open>
  C3, as stated, has the completion report carry the counts of valid and skipped points.
  The signal \<open>computationComplete\<close> has no argument: the two runs below emit the same
  signals, one with three valid points, the other with one valid and two skipped points
  (the divisor is zero at two timestamps).
\<close>

theorem completion_signal_has_no_counts_counterexample:
  "startComputation
     (exampleRun ''1/a'' (mkSeries [0, 1, 2] [Finite 1, Finite 1, Finite 1]) (\<lambda>i. False)) =
   Some \<lparr>signals = [computationStarted, progressUpdated 0, progressUpdated 100, computationComplete],
         outputSeries = \<lparr>samples = [(0, Finite 1), (1, Finite 1), (2, Finite 1)], updates = 1\<rparr>,
         validCount = 3, skippedCount = 0\<rparr> \<and>
   startComputation
     (exampleRun ''1/a'' (mkSeries [0, 1, 2] [Finite 1, Finite 0, Finite 0]) (\<lambda>i. False)) =
   Some \<lparr>signals = [computationStarted, progressUpdated 0, progressUpdated 100, computationComplete],
         outputSeries = \<lparr>samples = [(0, Finite 1)], updates = 1\<rparr>,
         validCount = 1, skippedCount = 2\<rparr>"
  by (simp add: run_simps engine_simps lexer_simps parser_simps upt_rec)

text \<open>
  C3, amended. In every run that has passed the four checks and is not cancelled, the
  output series holds the points of all timestamps and is updated once; the valid and
  the skipped points add up to the number of timestamps. If no point is valid, the run
  emits \<open>computationFailed\<close> with the number of skipped points in its reason; otherwise
  it emits \<open>progressUpdated(100)\<close> and then \<open>computationComplete\<close>, which carries no
  count. In particular, if the computation is skipped at every timestamp, the run fails
  with a skip count equal to the number of timestamps.
\<close>

theorem completed_loop_outcome:
  assumes "prepare c = Some (Inr (parser, requiredVars, timestamps))"
    and "\<forall>j<length timestamps. \<not> cancelRequested c j"
  shows "\<exists>r ps. startComputation c = Some r \<and>
           samples (outputSeries r) = writtenPoints c parser requiredVars timestamps \<and>
           updates (outputSeries r) = updates (currentOutputSeries c) + 1 \<and>
           validCount r = int (length (samples (outputSeries r))) \<and>
           validCount r + skippedCount r = int (length timestamps) \<and>
           (if validCount r = 0
            then signals r = [computationStarted, computationFailed (NoValidResults (skippedCount r))]
            else signals r =
                   computationStarted # map progressUpdated ps @ [progressUpdated 100, computationComplete]) \<and>
           ((\<forall>t \<in> set timestamps. computePoint c parser requiredVars t = None) \<longrightarrow>
              signals r =
                [computationStarted, computationFailed (NoValidResults (int (length timestamps)))])"
proof -
  let ?r = "runLoop c parser requiredVars timestamps"
  from runLoop_result [of "length timestamps" timestamps c parser requiredVars] assms(2)
  obtain ps where r:
    "samples (outputSeries ?r) = writtenPoints c parser requiredVars timestamps"
    "validCount ?r = int (length (writtenPoints c parser requiredVars timestamps))"
    "validCount ?r + skippedCount ?r = int (length timestamps)"
    "updates (outputSeries ?r) = updates (currentOutputSeries c) + 1"
    "if writtenPoints c parser requiredVars timestamps = [] then
       signals ?r = [computationStarted, computationFailed (NoValidResults (int (length timestamps)))]
     else signals ?r =
       computationStarted # map progressUpdated ps @ [progressUpdated 100, computationComplete]"
    by auto
  have "validCount ?r = 0 \<longleftrightarrow> writtenPoints c parser requiredVars timestamps = []"
    using r(2) by simp
  with r show ?thesis
    unfolding startComputation_loop [OF assms(1)] writtenPoints_Nil_iff [symmetric]
    by (intro exI [of _ ?r] exI [of _ ps]) auto
qed

text \<open>A division by a series that is zero at its three timestamps fails with the count 3.\<close>

theorem completed_loop_outcome_witness:
  "prepare (exampleRun ''1/a'' (mkSeries [0, 1, 2] [Finite 0, Finite 0, Finite 0]) (\<lambda>i. False)) =
     Some (Inr (\<lparr>rootNode = Some (NODE_OPERATOR OP_DIVIDE (Some (NODE_NUMBER (Finite 1)))
                               (Some (NODE_VARIABLE ''a''))),
                errorMessage = None\<rparr>, [''a''], [0, 1, 2])) \<and>
   (\<exists>r. startComputation
       (exampleRun ''1/a'' (mkSeries [0, 1, 2] [Finite 0, Finite 0, Finite 0]) (\<lambda>i. False)) = Some r \<and>
     samples (outputSeries r) = [] \<and> updates (outputSeries r) = 1 \<and>
     validCount r = 0 \<and> skippedCount r = 3 \<and>
     signals r = [computationStarted, computationFailed (NoValidResults 3)])"
proof -
  let ?c = "exampleRun ''1/a'' (mkSeries [0, 1, 2] [Finite 0, Finite 0, Finite 0]) (\<lambda>i. False)"
  let ?p = "\<lparr>rootNode = Some (NODE_OPERATOR OP_DIVIDE (Some (NODE_NUMBER (Finite 1)))
                               (Some (NODE_VARIABLE ''a''))), errorMessage = None\<rparr>"
  have h: "prepare ?c = Some (Inr (?p, [''a''], [0, 1, 2]))"
    by (simp add: run_simps engine_simps lexer_simps parser_simps upt_rec)
  have k: "\<forall>j<length [0, 1, 2 :: real]. \<not> cancelRequested ?c j"
    by (simp add: exampleRun_def)
  have w: "\<forall>t \<in> set [0, 1, 2]. computePoint ?c ?p [''a''] t = None"
    by (simp add: run_simps engine_simps)
  then have "writtenPoints ?c ?p [''a''] [0, 1, 2] = []"
    by (simp only: writtenPoints_Nil_iff)
  with completed_loop_outcome [OF h k] w h show ?thesis
    by (auto simp: exampleRun_def emptyOutput_def)
qed

text \<open>
  C4, as stated, bounds the number of progress emissions of a run by ten. The loop emits
  up to ten values, 0 to 90, and a successful run emits 100 after the loop: a run over
  ten timestamps, all valid, emits eleven values.
\<close>

theorem eleven_progress_emissions_counterexample:
  "startComputation
     (exampleRun ''a'' (mkSeries [0, 1, 2, 3, 4, 5, 6, 7, 8, 9]
        [Finite 1, Finite 1, Finite 1, Finite 1, Finite 1, Finite 1, Finite 1, Finite 1, Finite 1,
         Finite 1]) (\<lambda>i. False)) =
   Some \<lparr>signals = [computationStarted, progressUpdated 0, progressUpdated 10, progressUpdated 20,
           progressUpdated 30, progressUpdated 40, progressUpdated 50, progressUpdated 60,
           progressUpdated 70, progressUpdated 80, progressUpdated 90, progressUpdated 100,
           computationComplete],
         outputSeries = \<lparr>samples = [(0, Finite 1), (1, Finite 1), (2, Finite 1), (3, Finite 1),
           (4, Finite 1), (5, Finite 1), (6, Finite 1), (7, Finite 1), (8, Finite 1), (9, Finite 1)],
           updates = 1\<rparr>,
         validCount = 10, skippedCount = 0\<rparr>"
  by (simp add: run_simps engine_simps lexer_simps parser_simps upt_rec)

text \<open>
  C4, amended. In every run over at most 21474836 timestamps (so that \<open>i * 100\<close> fits
  the type \<open>int\<close>), the progress values emitted are strictly increasing; there are at
  most eleven of them, and at most ten in a run that does not complete; a run that
  completes emits 100 last; every value other than that is a multiple of ten that is the
  progress \<open>i * 100 / n\<close> of an iteration \<open>i\<close> of the \<open>n\<close> timestamps.
\<close>

theorem progress_emissions:
  assumes "startComputation c = Some r"
    and "length (collectTimestamps (currentVariableMapping c)) * 100 < 2 ^ 31"
  shows "sorted_wrt (<) (progressValues (signals r)) \<and>
         length (progressValues (signals r)) \<le> 11 \<and>
         (computationComplete \<in> set (signals r) \<longrightarrow>
            progressValues (signals r) \<noteq> [] \<and> last (progressValues (signals r)) = 100) \<and>
         (computationComplete \<notin> set (signals r) \<longrightarrow> length (progressValues (signals r)) \<le> 10) \<and>
         (\<forall>q \<in> set (progressValues (signals r)).
            q = 100 \<or>
            q mod 10 = 0 \<and>
            (\<exists>i<length (collectTimestamps (currentVariableMapping c)).
                q = progressAt (length (collectTimestamps (currentVariableMapping c))) i))"
proof -
  from prepare_returns obtain x where x: "prepare c = Some x" ..
  show ?thesis
  proof (cases x)
    case (Inl reason)
    with x assms(1) have "signals r = [computationStarted, computationFailed reason]"
      by (auto simp: startComputation_fail failRun_def)
    then show ?thesis
      by simp
  next
    case (Inr y)
    then obtain parser requiredVars timestamps where y: "x = Inr (parser, requiredVars, timestamps)"
      by (cases y) auto
    with x have prep: "prepare c = Some (Inr (parser, requiredVars, timestamps))"
      by simp
    then have ts: "timestamps = collectTimestamps (currentVariableMapping c)"
      by (simp add: prepare_timestamps)
    have r: "r = runLoop c parser requiredVars timestamps"
      using assms(1) startComputation_loop [OF prep] by simp
    from runLoop_progress [of timestamps c parser requiredVars] assms(2) obtain ps where
      ps: "sorted_wrt (<) ps" "length ps \<le> 10"
        "\<forall>q \<in> set ps. q mod 10 = 0 \<and> q < 100 \<and> (\<exists>i<length timestamps. q = progressAt (length timestamps) i)"
        "progressValues (signals r) = ps \<and> computationComplete \<notin> set (signals r) \<or>
         progressValues (signals r) = ps @ [100] \<and> computationComplete \<in> set (signals r)"
      unfolding r ts by blast
    from ps(4) show ?thesis
    proof
      assume "progressValues (signals r) = ps \<and> computationComplete \<notin> set (signals r)"
      with ps(1-3) show ?thesis
        unfolding ts by auto
    next
      assume "progressValues (signals r) = ps @ [100] \<and> computationComplete \<in> set (signals r)"
      with ps(1-3) show ?thesis
        unfolding ts by (auto simp: sorted_wrt_append)
    qed
  qed
qed

text \<open>A run over three timestamps emits the progress values 0 and 100.\<close>

theorem progress_emissions_witness:
  "length (collectTimestamps (currentVariableMapping
      (exampleRun ''a'' (mkSeries [0, 1, 2] [Finite 1, Finite 1, Finite 1]) (\<lambda>i. False)))) * 100
     < (2::nat) ^ 31 \<and>
   (\<exists>r. startComputation (exampleRun ''a'' (mkSeries [0, 1, 2] [Finite 1, Finite 1, Finite 1]) (\<lambda>i. False))
        = Some r \<and>
      progressValues (signals r) = [0, 100] \<and>
      sorted_wrt (<) (progressValues (signals r)) \<and>
      length (progressValues (signals r)) \<le> 11 \<and>
      computationComplete \<in> set (signals r) \<and>
      last (progressValues (signals r)) = 100)"
proof -
  let ?c = "exampleRun ''a'' (mkSeries [0, 1, 2] [Finite 1, Finite 1, Finite 1]) (\<lambda>i. False)"
  let ?r = "\<lparr>signals = [computationStarted, progressUpdated 0, progressUpdated 100, computationComplete],
         outputSeries = \<lparr>samples = [(0, Finite 1), (1, Finite 1), (2, Finite 1)], updates = 1\<rparr>,
         validCount = 3, skippedCount = 0\<rparr>"
  have run: "startComputation ?c = Some ?r"
    by (simp add: run_simps engine_simps lexer_simps parser_simps upt_rec)
  have small: "length (collectTimestamps (currentVariableMapping ?c)) * 100 < (2::nat) ^ 31"
    by (simp add: run_simps upt_rec)
  from progress_emissions [OF run small] run small show ?thesis
    by simp
qed

end
